theory Spec2Isabelle
  imports Complex_Main "HOL-Library.Multiset"
begin

section \<open>Data model of world.c\<close>

text \<open>
  The C doubles of the simulation are modelled as real numbers: every arithmetic step
  is exact, and there are no infinities or NaNs. The statements below are statements
  about this exact-arithmetic reading of the code, except where they name the build in
  double precision, which a later section models with the rounding of the doubles and
  with the capacity of the arena.

  \<^verbatim>\<open>struct node\<close> is the common prefix (centre of mass, mass, size) of stars and quads.
  A star's \<^verbatim>\<open>size\<close> is never assigned in world.c: the star array comes from
  \<^verbatim>\<open>calloc\<close>, and the source comments the field with "zero for a star". The star
  record therefore has no size field, and reading the size through a pointer to a star
  gives 0.
\<close>

record star =
  node_x :: real
  node_y :: real
  node_mass :: real
  speed_x :: real
  speed_y :: real
  accel_x :: real
  accel_y :: real

text \<open>
  A child slot of a quad is a \<^verbatim>\<open>struct quad*\<close> that is NULL, points into the star
  array (cast from \<^verbatim>\<open>struct star*\<close>) or points into the quad arena.
\<close>

datatype ptr = Null | StarP nat | QuadP nat

record quad =
  quad_x :: real
  quad_y :: real
  quad_mass :: real
  quad_size :: real
  center_x :: real
  center_y :: real
  children :: "nat \<Rightarrow> ptr"

text \<open>A quad as \<^verbatim>\<open>calloc\<close> and the final \<^verbatim>\<open>memset\<close> leave it.\<close>

definition zero_quad :: quad where
  "zero_quad = \<lparr>quad_x = 0, quad_y = 0, quad_mass = 0, quad_size = 0,
                center_x = 0, center_y = 0, children = (\<lambda>_. Null)\<rparr>"

text \<open>
  Modelled from the spec: the \<^verbatim>\<open>config\<close> structure is declared in common.h, which is
  not part of the sources at hand. The fields used by world.c are taken as real numbers,
  as the specification lists them. \<^verbatim>\<open>config.stars\<close> is the length of the star array.
\<close>

record config =
  accuracy :: real
  epsilon :: real
  gravity :: real
  speed :: real
  min_fps :: real

record vecd2 =
  vx :: real
  vy :: real

section \<open>Reading a node through a pointer\<close>

fun ptr_x :: "star list \<Rightarrow> (nat \<Rightarrow> quad) \<Rightarrow> ptr \<Rightarrow> real" where
  "ptr_x ss qs (StarP i) = node_x (ss ! i)"
| "ptr_x ss qs (QuadP j) = quad_x (qs j)"
| "ptr_x ss qs Null = 0"

fun ptr_y :: "star list \<Rightarrow> (nat \<Rightarrow> quad) \<Rightarrow> ptr \<Rightarrow> real" where
  "ptr_y ss qs (StarP i) = node_y (ss ! i)"
| "ptr_y ss qs (QuadP j) = quad_y (qs j)"
| "ptr_y ss qs Null = 0"

fun ptr_mass :: "star list \<Rightarrow> (nat \<Rightarrow> quad) \<Rightarrow> ptr \<Rightarrow> real" where
  "ptr_mass ss qs (StarP i) = node_mass (ss ! i)"
| "ptr_mass ss qs (QuadP j) = quad_mass (qs j)"
| "ptr_mass ss qs Null = 0"

fun ptr_size :: "(nat \<Rightarrow> quad) \<Rightarrow> ptr \<Rightarrow> real" where
  "ptr_size qs (StarP i) = 0"
| "ptr_size qs (QuadP j) = quad_size (qs j)"
| "ptr_size qs Null = 0"

section \<open>get_quadrant\<close>

text \<open>
  \<^verbatim>\<open>get_quadrant(quad, star)\<close> reads the quad's geometric centre and the star's
  position; the star may be any node seen through a pointer, so the position is passed
  as two coordinates.
\<close>

definition get_quadrant :: "quad \<Rightarrow> real \<Rightarrow> real \<Rightarrow> nat" where
  "get_quadrant q sx sy =
     (let quadrant = 0;
          quadrant = (if sx > center_x q then quadrant + 1 else quadrant);
          quadrant = (if sy > center_y q then quadrant + 2 else quadrant)
      in quadrant)"

section \<open>The timestep of a frame\<close>

text \<open>Lines 202 to 205 of \<^verbatim>\<open>world_frame\<close>.\<close>

definition clamp_frame_time :: "config \<Rightarrow> real \<Rightarrow> real" where
  "clamp_frame_time cfg time =
     (let frame_time = time;
          frame_time = (if frame_time > 1 / min_fps cfg then 1 / min_fps cfg else frame_time)
      in frame_time * speed cfg)"

section \<open>The force kernel\<close>

text \<open>
  \<^verbatim>\<open>atan2\<close> of the C library, on real numbers: the angle in \<open>(-\<pi>, \<pi>]\<close> of the
  point \<open>(x, y)\<close>, and 0 at the origin.
\<close>

definition atan2 :: "real \<Rightarrow> real \<Rightarrow> real" where
  "atan2 y x =
     (if x > 0 then arctan (y / x)
      else if x < 0 \<and> y \<ge> 0 then arctan (y / x) + pi
      else if x < 0 then arctan (y / x) - pi
      else if y > 0 then pi / 2
      else if y < 0 then - (pi / 2)
      else 0)"

text \<open>
  The denominator of line 83, and the vector that lines 82 to 85 add to the accumulator
  for a node at offset \<open>(dx, dy)\<close> with mass \<open>m\<close>.
\<close>

definition accel_denominator :: "config \<Rightarrow> real \<Rightarrow> real" where
  "accel_denominator cfg distance_sqr = distance_sqr + epsilon cfg"

definition accept_node :: "config \<Rightarrow> real \<Rightarrow> real \<Rightarrow> real \<Rightarrow> vecd2 \<Rightarrow> vecd2" where
  "accept_node cfg m dx dy accel =
     (let distance_sqr = dx * dx + dy * dy;
          angle = atan2 dy dx;
          accel_abs = m / accel_denominator cfg distance_sqr
      in accel\<lparr>vx := vx accel + accel_abs * cos angle,
               vy := vy accel + accel_abs * sin angle\<rparr>)"

text \<open>
  \<^verbatim>\<open>get_accel\<close> walks the tree recursively. The recursion follows pointers of the
  arena, so the model counts the remaining depth: \<open>None\<close> means that the walk needs more
  than \<open>fuel\<close> nested calls. The target star is \<open>ss ! i\<close>; the node is read through the
  pointer \<open>p\<close>, which the callers never pass as NULL. Only a quad can have a non-zero
  size, so the recursion branch reads the children of a quad.
\<close>

fun get_accel :: "nat \<Rightarrow> config \<Rightarrow> star list \<Rightarrow> (nat \<Rightarrow> quad) \<Rightarrow> nat \<Rightarrow> ptr \<Rightarrow> vecd2 \<Rightarrow> vecd2 option"
  where
  "get_accel 0 cfg ss qs i p accel = None"
| "get_accel (Suc fuel) cfg ss qs i p accel =
     (let dx = ptr_x ss qs p - node_x (ss ! i);
          dy = ptr_y ss qs p - node_y (ss ! i);
          distance_sqr = dx * dx + dy * dy
      in if sqrt distance_sqr > ptr_size qs p * accuracy cfg then
           Some (accept_node cfg (ptr_mass ss qs p) dx dy accel)
         else if ptr_size qs p \<noteq> 0 then
           (case p of
              QuadP j \<Rightarrow>
                Option.bind
                  (if children (qs j) 0 \<noteq> Null
                   then get_accel fuel cfg ss qs i (children (qs j) 0) accel else Some accel)
                  (\<lambda>a0. Option.bind
                    (if children (qs j) 1 \<noteq> Null
                     then get_accel fuel cfg ss qs i (children (qs j) 1) a0 else Some a0)
                    (\<lambda>a1. Option.bind
                      (if children (qs j) 2 \<noteq> Null
                       then get_accel fuel cfg ss qs i (children (qs j) 2) a1 else Some a1)
                      (\<lambda>a2.
                        if children (qs j) 3 \<noteq> Null
                        then get_accel fuel cfg ss qs i (children (qs j) 3) a2 else Some a2)))
            | _ \<Rightarrow> Some accel)
         else Some accel)"

section \<open>Updating the stars\<close>

text \<open>
  The body of the star loop, which is the same text in \<^verbatim>\<open>update_stars_job\<close> (lines 110
  to 116) and in the inline path of \<^verbatim>\<open>world_frame\<close> (lines 280 to 286).
\<close>

definition update_star ::
  "nat \<Rightarrow> config \<Rightarrow> real \<Rightarrow> (nat \<Rightarrow> quad) \<Rightarrow> nat \<Rightarrow> star list \<Rightarrow> star list option" where
  "update_star fuel cfg frame_time qs i ss =
     (case get_accel fuel cfg ss qs i (QuadP 0) \<lparr>vx = 0, vy = 0\<rparr> of
        None \<Rightarrow> None
      | Some accel \<Rightarrow>
          (let ax = vx accel * (frame_time * gravity cfg / 2);
               ay = vy accel * (frame_time * gravity cfg / 2);
               s = ss ! i
           in Some (ss[i := s\<lparr>speed_x := speed_x s + (accel_x s + ax),
                               speed_y := speed_y s + (accel_y s + ay),
                               accel_x := ax, accel_y := ay\<rparr>])))"

text \<open>A \<^verbatim>\<open>for\<close> loop over the star indices \<open>is\<close>.\<close>

fun update_stars ::
  "nat \<Rightarrow> config \<Rightarrow> real \<Rightarrow> (nat \<Rightarrow> quad) \<Rightarrow> nat list \<Rightarrow> star list \<Rightarrow> star list option" where
  "update_stars fuel cfg frame_time qs [] ss = Some ss"
| "update_stars fuel cfg frame_time qs (i # is) ss =
     (case update_star fuel cfg frame_time qs i ss of
        None \<Rightarrow> None
      | Some ss' \<Rightarrow> update_stars fuel cfg frame_time qs is ss')"

text \<open>
  One round of \<^verbatim>\<open>update_stars_job\<close> for the worker \<open>part\<close>: the stars from
  \<^verbatim>\<open>config.stars * part / cores\<close> up to \<^verbatim>\<open>config.stars * (part+1) / cores\<close>. The
  products are C \<^verbatim>\<open>int\<close>s; they are modelled as natural numbers, which is what the C
  computes as long as the product of the star count and the number of cores fits an
  \<^verbatim>\<open>int\<close>.
\<close>

definition part_start :: "nat \<Rightarrow> nat \<Rightarrow> nat \<Rightarrow> nat" where
  "part_start n cores part = n * part div cores"

definition part_end :: "nat \<Rightarrow> nat \<Rightarrow> nat \<Rightarrow> nat" where
  "part_end n cores part = n * (part + 1) div cores"

definition update_stars_job ::
  "nat \<Rightarrow> config \<Rightarrow> real \<Rightarrow> (nat \<Rightarrow> quad) \<Rightarrow> nat \<Rightarrow> nat \<Rightarrow> star list \<Rightarrow> star list option" where
  "update_stars_job fuel cfg frame_time qs cores part ss =
     update_stars fuel cfg frame_time qs
       [part_start (length ss) cores part ..< part_end (length ss) cores part] ss"

text \<open>
  The pool, between the posts of \<^verbatim>\<open>job_start\<close> and the waits on \<^verbatim>\<open>job_finish\<close>
  (lines 273 to 277). The rounds of the workers are modelled as running one after the
  other; \<open>order\<close> names the worker of each round, in the order in which the scheduler
  lets the rounds run.
\<close>

fun run_pool ::
  "nat \<Rightarrow> config \<Rightarrow> real \<Rightarrow> (nat \<Rightarrow> quad) \<Rightarrow> nat \<Rightarrow> nat list \<Rightarrow> star list \<Rightarrow> star list option" where
  "run_pool fuel cfg frame_time qs cores [] ss = Some ss"
| "run_pool fuel cfg frame_time qs cores (part # parts) ss =
     (case update_stars_job fuel cfg frame_time qs cores part ss of
        None \<Rightarrow> None
      | Some ss' \<Rightarrow> run_pool fuel cfg frame_time qs cores parts ss')"

text \<open>
  The two semaphores of the pool. \<^verbatim>\<open>world_frame\<close> posts \<^verbatim>\<open>cores\<close> tokens on
  \<^verbatim>\<open>job_start\<close> (lines 274 and 275) and then waits for \<^verbatim>\<open>cores\<close> tokens on
  \<^verbatim>\<open>job_finish\<close> (lines 276 and 277). All workers wait on the one semaphore
  \<^verbatim>\<open>job_start\<close> (line 108): a worker that gets a token runs its round, posts on
  \<^verbatim>\<open>job_finish\<close> (line 118) and waits on \<^verbatim>\<open>job_start\<close> again. A round of a worker
  is possible whenever \<^verbatim>\<open>job_start\<close> holds a token; no token belongs to a worker.
\<close>

record sems =
  job_start :: nat
  job_finish :: nat

definition post_jobs :: "nat \<Rightarrow> sems" where
  "post_jobs ncores = \<lparr>job_start = ncores, job_finish = 0\<rparr>"

definition worker_round :: "sems \<Rightarrow> sems option" where
  "worker_round s =
     (if job_start s = 0 then None
      else Some \<lparr>job_start = job_start s - 1, job_finish = job_finish s + 1\<rparr>)"

fun pool_rounds :: "nat \<Rightarrow> nat list \<Rightarrow> sems \<Rightarrow> sems option" where
  "pool_rounds ncores [] s = Some s"
| "pool_rounds ncores (part # parts) s =
     (if part < ncores then
        (case worker_round s of None \<Rightarrow> None | Some s' \<Rightarrow> pool_rounds ncores parts s')
      else None)"

text \<open>
  \<open>order\<close> is a schedule of the pool with \<open>ncores\<close> workers: every round of \<open>order\<close>
  finds a token, and after the rounds \<^verbatim>\<open>job_finish\<close> holds the \<open>ncores\<close> tokens that
  \<^verbatim>\<open>world_frame\<close> waits for.
\<close>

definition pool_schedule :: "nat \<Rightarrow> nat list \<Rightarrow> bool" where
  "pool_schedule ncores order =
     (case pool_rounds ncores order (post_jobs ncores) of
        None \<Rightarrow> False
      | Some s \<Rightarrow> job_finish s = ncores)"

section \<open>Building the tree\<close>

text \<open>
  The bounds of the world, lines 214 to 227. The loop starts from plus or minus
  \<^verbatim>\<open>INFINITY\<close>, which is \<open>None\<close> here: the comparison with a star's coordinate then
  holds, and the coordinate replaces it.
\<close>

definition lower_bound :: "real option \<Rightarrow> real \<Rightarrow> real option" where
  "lower_bound m v = (case m of None \<Rightarrow> Some v | Some u \<Rightarrow> if u > v then Some v else Some u)"

definition upper_bound :: "real option \<Rightarrow> real \<Rightarrow> real option" where
  "upper_bound m v = (case m of None \<Rightarrow> Some v | Some u \<Rightarrow> if u < v then Some v else Some u)"

definition xmin_world :: "star list \<Rightarrow> real" where
  "xmin_world ss = the (fold (\<lambda>s m. lower_bound m (node_x s)) ss None)"

definition xmax_world :: "star list \<Rightarrow> real" where
  "xmax_world ss = the (fold (\<lambda>s m. upper_bound m (node_x s)) ss None)"

definition ymin_world :: "star list \<Rightarrow> real" where
  "ymin_world ss = the (fold (\<lambda>s m. lower_bound m (node_y s)) ss None)"

definition ymax_world :: "star list \<Rightarrow> real" where
  "ymax_world ss = the (fold (\<lambda>s m. upper_bound m (node_y s)) ss None)"

text \<open>The state of the build: the quad arena and \<^verbatim>\<open>quad_count\<close>.\<close>

record bstate =
  b_quads :: "nat \<Rightarrow> quad"
  quad_count :: nat

text \<open>Lines 228 to 233: the root node.\<close>

definition init_root :: "star list \<Rightarrow> (nat \<Rightarrow> quad) \<Rightarrow> bstate" where
  "init_root ss qs =
     (let size_x = xmax_world ss - xmin_world ss;
          size_y = ymax_world ss - ymin_world ss
      in \<lparr>b_quads = qs(0 := (qs 0)\<lparr>center_x := (xmin_world ss + xmax_world ss) / 2,
                                   center_y := (ymin_world ss + ymax_world ss) / 2,
                                   quad_size := (if size_x > size_y then size_x else size_y)\<rparr>),
          quad_count = 1\<rparr>)"

text \<open>Lines 240 to 243: the star is added to the current quad.\<close>

definition add_star :: "star \<Rightarrow> quad \<Rightarrow> quad" where
  "add_star s q =
     (let mass_sum = quad_mass q + node_mass s
      in q\<lparr>quad_x := (quad_x q * quad_mass q + node_x s * node_mass s) / mass_sum,
           quad_y := (quad_y q * quad_mass q + node_y s * node_mass s) / mass_sum,
           quad_mass := mass_sum\<rparr>)"

definition set_child :: "quad \<Rightarrow> nat \<Rightarrow> ptr \<Rightarrow> quad" where
  "set_child q k p = q\<lparr>children := (children q)(k := p)\<rparr>"

text \<open>
  Lines 249 to 258: the quad that takes the place of the leaf \<open>old\<close> in slot \<open>quadrant\<close>
  of \<open>parent\<close>. It is written into the arena slot \<open>slot\<close>, whose other fields stay as
  they are. The source does not compare \<^verbatim>\<open>quad_count\<close> with the capacity of the arena.
\<close>

definition make_quad :: "star list \<Rightarrow> (nat \<Rightarrow> quad) \<Rightarrow> quad \<Rightarrow> nat \<Rightarrow> ptr \<Rightarrow> quad \<Rightarrow> quad" where
  "make_quad ss qs parent quadrant old slot =
     (let shift = quad_size parent / 4;
          new_quad = slot\<lparr>quad_x := ptr_x ss qs old,
                          quad_y := ptr_y ss qs old,
                          quad_mass := ptr_mass ss qs old,
                          quad_size := quad_size parent / 2,
                          center_x := center_x parent + (if bit quadrant 0 then shift else - shift),
                          center_y := center_y parent + (if bit quadrant 1 then shift else - shift)\<rparr>
      in set_child new_quad (get_quadrant new_quad (ptr_x ss qs old) (ptr_y ss qs old)) old)"

text \<open>
  One pass through the body of the \<^verbatim>\<open>do\<close> loop (lines 239 to 261) for the star \<open>i\<close> at
  the quad \<open>j\<close>: the new state and the new value of \<^verbatim>\<open>quad\<close>.
\<close>

definition insert_step :: "star list \<Rightarrow> nat \<Rightarrow> nat \<Rightarrow> bstate \<Rightarrow> bstate \<times> ptr" where
  "insert_step ss i j st =
     (let qs1 = (b_quads st)(j := add_star (ss ! i) (b_quads st j));
          quadrant = get_quadrant (qs1 j) (node_x (ss ! i)) (node_y (ss ! i));
          c = children (qs1 j) quadrant
      in if c = Null then
           (st\<lparr>b_quads := qs1(j := set_child (qs1 j) quadrant (StarP i))\<rparr>, StarP i)
         else if ptr_size qs1 c = 0 then
           (let n = quad_count st;
                qs2 = qs1(n := make_quad ss qs1 (qs1 j) quadrant c (qs1 n));
                qs3 = qs2(j := set_child (qs2 j) quadrant (QuadP n))
            in (\<lparr>b_quads = qs3, quad_count = n + 1\<rparr>, QuadP n))
         else (st\<lparr>b_quads := qs1\<rparr>, c))"

text \<open>
  The \<^verbatim>\<open>do ... while (quad->size)\<close> loop for one star. It can run forever, so it takes
  the number of passes it may make: \<open>None\<close> means that \<open>fuel\<close> passes were not enough.
\<close>

fun insert_star :: "nat \<Rightarrow> star list \<Rightarrow> nat \<Rightarrow> nat \<Rightarrow> bstate \<Rightarrow> bstate option" where
  "insert_star 0 ss i j st = None"
| "insert_star (Suc fuel) ss i j st =
     (case insert_step ss i j st of
        (st', QuadP j') \<Rightarrow>
          if quad_size (b_quads st' j') \<noteq> 0 then insert_star fuel ss i j' st' else Some st'
      | (st', _) \<Rightarrow> Some st')"

text \<open>The \<^verbatim>\<open>for\<close> loop over the stars, lines 236 to 263.\<close>

fun insert_stars :: "nat \<Rightarrow> star list \<Rightarrow> nat list \<Rightarrow> bstate \<Rightarrow> bstate option" where
  "insert_stars fuel ss [] st = Some st"
| "insert_stars fuel ss (i # is) st =
     (case insert_star fuel ss i 0 st of
        None \<Rightarrow> None
      | Some st' \<Rightarrow> insert_stars fuel ss is st')"

definition build_tree :: "nat \<Rightarrow> star list \<Rightarrow> (nat \<Rightarrow> quad) \<Rightarrow> bstate option" where
  "build_tree fuel ss qs = insert_stars fuel ss [0 ..< length ss] (init_root ss qs)"

text \<open>
  The capacity of the quad arena, line 157 of \<^verbatim>\<open>init_world\<close>: \<^verbatim>\<open>2 * config.stars\<close>
  quads. A build that ends with \<^verbatim>\<open>quad_count\<close> above the capacity has written quads
  behind the end of the arena.
\<close>

definition quad_capacity :: "star list \<Rightarrow> nat" where
  "quad_capacity ss = 2 * length ss"

section \<open>A frame\<close>

record world =
  stars :: "star list"
  quads :: "nat \<Rightarrow> quad"
  disp_stars :: "(real \<times> real) list"
  cores :: nat
  frame_time :: real

text \<open>Lines 290 and 291: the new position of a star.\<close>

definition move_star :: "real \<Rightarrow> star \<Rightarrow> star" where
  "move_star ft s =
     s\<lparr>node_x := node_x s + ft * (speed_x s + accel_x s),
       node_y := node_y s + ft * (speed_y s + accel_y s)\<rparr>"

text \<open>
  Lines 273 to 288: the pool when there is more than one core, the inline loop
  otherwise.
\<close>

definition accel_phase ::
  "nat \<Rightarrow> config \<Rightarrow> real \<Rightarrow> (nat \<Rightarrow> quad) \<Rightarrow> nat \<Rightarrow> nat list \<Rightarrow> star list \<Rightarrow> star list option" where
  "accel_phase fuel cfg ft qs ncores order ss =
     (if ncores > 1 then run_pool fuel cfg ft qs ncores order ss
      else update_stars fuel cfg ft qs [0 ..< length ss] ss)"

text \<open>
  \<^verbatim>\<open>world_frame\<close>. The timings are left out. The display buffer holds \<^verbatim>\<open>GLfloat\<close>s; the
  narrowing is not modelled. The final \<^verbatim>\<open>memset\<close> clears the first \<^verbatim>\<open>quad_count\<close> quads.
\<close>

definition world_frame :: "nat \<Rightarrow> config \<Rightarrow> nat list \<Rightarrow> real \<Rightarrow> world \<Rightarrow> world option" where
  "world_frame fuel cfg order time w =
     (let ft = clamp_frame_time cfg time
      in case build_tree fuel (stars w) (quads w) of
           None \<Rightarrow> None
         | Some b \<Rightarrow>
             (case accel_phase fuel cfg ft (b_quads b) (cores w) order (stars w) of
                None \<Rightarrow> None
              | Some ss1 \<Rightarrow>
                  (let ss2 = map (move_star ft) ss1
                   in Some (w\<lparr>stars := ss2,
                              quads := (\<lambda>j. if j < quad_count b then zero_quad else b_quads b j),
                              disp_stars := map (\<lambda>s. (node_x s, node_y s)) ss2,
                              frame_time := ft\<rparr>))))"

section \<open>The build in double precision\<close>

text \<open>
  The model above reads the doubles of world.c as real numbers. For the build of the tree
  (lines 214 to 263) this section follows the arithmetic of the C \<^verbatim>\<open>double\<close>: IEEE 754
  binary64 with rounding to nearest, ties to even, where every single operation gives the
  double nearest to its exact result (no fused multiply-add and no excess precision, as
  with SSE2 on x86-64). The records of the stars and quads are the same; their fields
  then hold doubles.

  A finite double is \<open>m * 2 ^ e\<close> with an integer \<open>m\<close>, \<open>\<bar>m\<bar> < 2 ^ 53\<close>, and
  \<open>- 1074 \<le> e \<le> 971\<close>. \<open>round_even\<close> rounds a real number to the nearest integer, a
  tie to the even one. \<open>expo x\<close> is the exponent \<open>e\<close> of the doubles around \<open>x\<close>: 52
  below the binary exponent of \<open>x\<close>, and \<open>-1074\<close> in the subnormal range, where results
  underflow gradually and in the end to zero. \<open>rd x\<close> is the double nearest to \<open>x\<close>, as
  long as that is finite.
\<close>

definition round_even :: "real \<Rightarrow> int" where
  "round_even q =
     (let n = \<lfloor>q\<rfloor>; r = q - of_int n
      in if r < 1 / 2 then n else if r > 1 / 2 then n + 1 else if even n then n else n + 1)"

definition expo :: "real \<Rightarrow> int" where
  "expo x = max (\<lfloor>log 2 \<bar>x\<bar>\<rfloor> - 52) (- 1074)"

definition rd :: "real \<Rightarrow> real" where
  "rd x = (if x = 0 then 0 else of_int (round_even (x / 2 powi expo x)) * 2 powi expo x)"

text \<open>
  The largest finite double. A result beyond it is an infinity in C, and a division by
  zero gives an infinity or a NaN; the model does not follow a build further once a value
  is not finite, and returns \<open>Not_Finite\<close>. The other way in which a build of the model
  stops early is \<open>Arena_Overrun\<close>: the build needs a quad when all \<^verbatim>\<open>2 * config.stars\<close>
  quads of the arena (line 157) are in use, where the C code writes behind the end of the
  arena (lines 249 to 251), which is undefined behaviour.
\<close>

definition max_double :: real where
  "max_double = (2 ^ 53 - 1) * 2 ^ 971"

definition finite_double :: "real \<Rightarrow> bool" where
  "finite_double x = (\<bar>x\<bar> \<le> max_double)"

datatype error = Arena_Overrun | Not_Finite

text \<open>
  Lines 228 to 233 in doubles. With no star the bounds stay at plus and minus
  \<^verbatim>\<open>INFINITY\<close>, and the centre and the size of the root are not finite.
\<close>

definition d_init_root :: "star list \<Rightarrow> (nat \<Rightarrow> quad) \<Rightarrow> error + bstate" where
  "d_init_root ss qs =
     (let sum_x = rd (xmin_world ss + xmax_world ss);
          sum_y = rd (ymin_world ss + ymax_world ss);
          size_x = rd (xmax_world ss - xmin_world ss);
          size_y = rd (ymax_world ss - ymin_world ss)
      in if ss \<noteq> [] \<and> finite_double sum_x \<and> finite_double sum_y \<and>
            finite_double size_x \<and> finite_double size_y
         then Inr \<lparr>b_quads = qs(0 := (qs 0)\<lparr>center_x := rd (sum_x / 2),
                                            center_y := rd (sum_y / 2),
                                            quad_size := (if size_x > size_y then size_x else size_y)\<rparr>),
                   quad_count = 1\<rparr>
         else Inl Not_Finite)"

text \<open>Lines 240 to 243 in doubles: two products, a sum and a quotient for each coordinate.\<close>

definition d_add_star :: "star \<Rightarrow> quad \<Rightarrow> quad option" where
  "d_add_star s q =
     (let mass_sum = rd (quad_mass q + node_mass s);
          qx = rd (quad_x q * quad_mass q);
          sx = rd (node_x s * node_mass s);
          qy = rd (quad_y q * quad_mass q);
          sy = rd (node_y s * node_mass s);
          sum_x = rd (qx + sx);
          sum_y = rd (qy + sy)
      in if mass_sum \<noteq> 0 \<and>
            list_all finite_double
              [mass_sum, qx, sx, qy, sy, sum_x, sum_y, rd (sum_x / mass_sum), rd (sum_y / mass_sum)]
         then Some (q\<lparr>quad_x := rd (sum_x / mass_sum),
                      quad_y := rd (sum_y / mass_sum),
                      quad_mass := mass_sum\<rparr>)
         else None)"

text \<open>Lines 251 to 258 in doubles.\<close>

definition d_make_quad ::
  "star list \<Rightarrow> (nat \<Rightarrow> quad) \<Rightarrow> quad \<Rightarrow> nat \<Rightarrow> ptr \<Rightarrow> quad \<Rightarrow> quad option" where
  "d_make_quad ss qs parent quadrant old slot =
     (let shift = rd (quad_size parent / 4);
          cx = rd (center_x parent + (if bit quadrant 0 then shift else - shift));
          cy = rd (center_y parent + (if bit quadrant 1 then shift else - shift));
          new_quad = slot\<lparr>quad_x := ptr_x ss qs old,
                          quad_y := ptr_y ss qs old,
                          quad_mass := ptr_mass ss qs old,
                          quad_size := rd (quad_size parent / 2),
                          center_x := cx,
                          center_y := cy\<rparr>
      in if finite_double cx \<and> finite_double cy
         then Some (set_child new_quad (get_quadrant new_quad (ptr_x ss qs old) (ptr_y ss qs old)) old)
         else None)"

text \<open>
  One pass through the body of the \<^verbatim>\<open>do\<close> loop (lines 239 to 261) in doubles, with the
  capacity of the arena: the new state and the new value of \<^verbatim>\<open>quad\<close>.
\<close>

definition d_insert_step :: "star list \<Rightarrow> nat \<Rightarrow> nat \<Rightarrow> bstate \<Rightarrow> error + bstate \<times> ptr" where
  "d_insert_step ss i j st =
     (case d_add_star (ss ! i) (b_quads st j) of
        None \<Rightarrow> Inl Not_Finite
      | Some q \<Rightarrow>
          (let qs1 = (b_quads st)(j := q);
               quadrant = get_quadrant (qs1 j) (node_x (ss ! i)) (node_y (ss ! i));
               c = children (qs1 j) quadrant
           in if c = Null then
                Inr (st\<lparr>b_quads := qs1(j := set_child (qs1 j) quadrant (StarP i))\<rparr>, StarP i)
              else if ptr_size qs1 c = 0 then
                (let n = quad_count st
                 in if quad_capacity ss \<le> n then Inl Arena_Overrun
                    else
                      (case d_make_quad ss qs1 (qs1 j) quadrant c (qs1 n) of
                         None \<Rightarrow> Inl Not_Finite
                       | Some new_quad \<Rightarrow>
                           (let qs2 = qs1(n := new_quad);
                                qs3 = qs2(j := set_child (qs2 j) quadrant (QuadP n))
                            in Inr (\<lparr>b_quads = qs3, quad_count = n + 1\<rparr>, QuadP n))))
              else Inr (st\<lparr>b_quads := qs1\<rparr>, c)))"

text \<open>
  The \<^verbatim>\<open>do ... while (quad->size)\<close> loop for one star: the state and the value of
  \<^verbatim>\<open>quad\<close> when the loop is left, and \<open>None\<close> when \<open>fuel\<close> passes were not enough.
\<close>

fun d_insert_star ::
  "nat \<Rightarrow> star list \<Rightarrow> nat \<Rightarrow> nat \<Rightarrow> bstate \<Rightarrow> (error + bstate \<times> ptr) option" where
  "d_insert_star 0 ss i j st = None"
| "d_insert_star (Suc fuel) ss i j st =
     (case d_insert_step ss i j st of
        Inl e \<Rightarrow> Some (Inl e)
      | Inr (st', QuadP j') \<Rightarrow>
          if quad_size (b_quads st' j') \<noteq> 0 then d_insert_star fuel ss i j' st'
          else Some (Inr (st', QuadP j'))
      | Inr (st', p) \<Rightarrow> Some (Inr (st', p)))"

fun d_insert_stars :: "nat \<Rightarrow> star list \<Rightarrow> nat list \<Rightarrow> bstate \<Rightarrow> (error + bstate) option" where
  "d_insert_stars fuel ss [] st = Some (Inr st)"
| "d_insert_stars fuel ss (i # is) st =
     (case d_insert_star fuel ss i 0 st of
        None \<Rightarrow> None
      | Some (Inl e) \<Rightarrow> Some (Inl e)
      | Some (Inr (st', p)) \<Rightarrow> d_insert_stars fuel ss is st')"

definition d_build_tree :: "nat \<Rightarrow> star list \<Rightarrow> (nat \<Rightarrow> quad) \<Rightarrow> (error + bstate) option" where
  "d_build_tree fuel ss qs =
     (case d_init_root ss qs of
        Inl e \<Rightarrow> Some (Inl e)
      | Inr st \<Rightarrow> d_insert_stars fuel ss [0 ..< length ss] st)"
section \<open>Notions for the statements\<close>

text \<open>
  Two star arrays have the same nodes when they have the same length and agree, index by
  index, on position and mass: the fields that the tree walk reads.
\<close>

definition same_nodes :: "star list \<Rightarrow> star list \<Rightarrow> bool" where
  "same_nodes ss ss' =
     (length ss = length ss' \<and>
      (\<forall>k. node_x (ss ! k) = node_x (ss' ! k) \<and> node_y (ss ! k) = node_y (ss' ! k) \<and>
           node_mass (ss ! k) = node_mass (ss' ! k)))"

text \<open>The star after the velocity update with the acceleration \<open>accel\<close> of the walk.\<close>

definition kick :: "config \<Rightarrow> real \<Rightarrow> vecd2 \<Rightarrow> star \<Rightarrow> star" where
  "kick cfg ft accel s =
     s\<lparr>speed_x := speed_x s + (accel_x s + vx accel * (ft * gravity cfg / 2)),
       speed_y := speed_y s + (accel_y s + vy accel * (ft * gravity cfg / 2)),
       accel_x := vx accel * (ft * gravity cfg / 2),
       accel_y := vy accel * (ft * gravity cfg / 2)\<rparr>"

text \<open>The walk from the root for the star \<open>i\<close>, starting from the zero vector.\<close>

definition walk :: "nat \<Rightarrow> config \<Rightarrow> star list \<Rightarrow> (nat \<Rightarrow> quad) \<Rightarrow> nat \<Rightarrow> vecd2 option" where
  "walk fuel cfg ss qs i = get_accel fuel cfg ss qs i (QuadP 0) \<lparr>vx = 0, vy = 0\<rparr>"

text \<open>The star indices of the worker \<open>p\<close> out of \<open>P\<close>, for \<open>n\<close> stars.\<close>

definition part_range :: "nat \<Rightarrow> nat \<Rightarrow> nat \<Rightarrow> nat list" where
  "part_range n P p = [part_start n P p ..< part_end n P p]"

text \<open>The positions of the stars, and the mean of their x coordinates weighted by mass.\<close>

definition positions :: "star list \<Rightarrow> (real \<times> real) list" where
  "positions ss = map (\<lambda>s. (node_x s, node_y s)) ss"

definition mean_x :: "star list \<Rightarrow> real" where
  "mean_x ss = sum_list (map (\<lambda>s. node_mass s * node_x s) ss) / sum_list (map node_mass ss)"

text \<open>
  The machine epsilon of the doubles. A real number is a double when rounding leaves it
  as it is. \<open>fl_sum\<close> adds the numbers of a list from the left, starting from 0, in
  doubles.
\<close>

definition machine_epsilon :: real where
  "machine_epsilon = 2 powi (- 52)"

definition is_double :: "real \<Rightarrow> bool" where
  "is_double x = (rd x = x)"

definition fl_sum :: "real list \<Rightarrow> real" where
  "fl_sum ms = foldl (\<lambda>a m. rd (a + m)) 0 ms"

section \<open>Examples\<close>

definition example_config :: config where
  "example_config = \<lparr>accuracy = 1, epsilon = 1, gravity = 1, speed = 1, min_fps = 10\<rparr>"

text \<open>Two stars on the x axis, and the world that holds them before a frame.\<close>

definition two_stars :: "star list" where
  "two_stars =
     [\<lparr>node_x = 0, node_y = 0, node_mass = 1, speed_x = 0, speed_y = 2, accel_x = 3, accel_y = 0\<rparr>,
      \<lparr>node_x = 1, node_y = 0, node_mass = 3, speed_x = 0, speed_y = 0, accel_x = 0, accel_y = 5\<rparr>]"

definition two_star_world :: world where
  "two_star_world = \<lparr>stars = two_stars, quads = (\<lambda>_. zero_quad), disp_stars = [(0, 0), (1, 0)],
                      cores = 2, frame_time = 0\<rparr>"

text \<open>The tree that the build makes of them: the root with two leaves.\<close>

definition two_star_tree :: "nat \<Rightarrow> quad" where
  "two_star_tree = (\<lambda>_. zero_quad)
         (0 := \<lparr>quad_x = 3 / 4, quad_y = 0, quad_mass = 4, quad_size = 1,
                  center_x = 1 / 2, center_y = 0,
                  children = (\<lambda>_. Null)(0 := StarP 0, 1 := StarP 1)\<rparr>)"

text \<open>
  Three stars of mass 1 on the x axis, two of them close to each other: the arena of
  \<^verbatim>\<open>init_world\<close> has six quads for them.
\<close>

definition mk_star :: "real \<Rightarrow> real \<Rightarrow> real \<Rightarrow> star" where
  "mk_star px py m =
     \<lparr>node_x = px, node_y = py, node_mass = m, speed_x = 0, speed_y = 0, accel_x = 0, accel_y = 0\<rparr>"

definition three_stars :: "star list" where
  "three_stars = [mk_star 0 0 1, mk_star (1 / 64) 0 1, mk_star 1 0 1]"

text \<open>
  Three stars of mass 1 whose x coordinates are 1, \<open>2 ^ -53\<close> and \<open>-1\<close>, and the tree
  that the build in doubles makes of them.
\<close>

definition mixed_stars :: "star list" where
  "mixed_stars = [mk_star 1 0 1, mk_star (1 / 2 ^ 53) 1 1, mk_star (- 1) 2 1]"

definition mixed_tree :: "nat \<Rightarrow> quad" where
  "mixed_tree = (\<lambda>_. zero_quad)
     (0 := \<lparr>quad_x = 0, quad_y = 1, quad_mass = 3, quad_size = 2, center_x = 0, center_y = 1,
             children = (\<lambda>_. Null)(1 := QuadP 1, 2 := StarP 2)\<rparr>,
      1 := \<lparr>quad_x = 1 / 2, quad_y = 1 / 2, quad_mass = 2, quad_size = 1,
             center_x = 1 / 2, center_y = 1 / 2,
             children = (\<lambda>_. Null)(1 := StarP 0, 2 := StarP 1)\<rparr>)"

text \<open>
  Three stars of mass 1 on the x axis, two of them one unit in the last place apart: the
  doubles 1 and \<open>1 + 2 ^ -52\<close>.
\<close>

definition close_stars :: "star list" where
  "close_stars = [mk_star 1 0 1, mk_star (1 + 1 / 2 ^ 52) 0 1, mk_star 4 0 1]"

text \<open>
  The smallest positive double, and two stars of mass 1 on the x axis at the two smallest
  positive doubles, with the tree that the build in doubles makes of them.
\<close>

definition min_double :: real where
  "min_double = 2 powi (- 1074)"

definition tiny_stars :: "star list" where
  "tiny_stars = [mk_star min_double 0 1, mk_star (2 * min_double) 0 1]"

definition tiny_tree :: "nat \<Rightarrow> quad" where
  "tiny_tree = (\<lambda>_. zero_quad)
     (0 := \<lparr>quad_x = 2 * min_double, quad_y = 0, quad_mass = 2, quad_size = min_double,
             center_x = 2 * min_double, center_y = 0,
             children = (\<lambda>_. Null)(0 := QuadP 1)\<rparr>,
      1 := \<lparr>quad_x = min_double, quad_y = 0, quad_mass = 1, quad_size = 0,
             center_x = 2 * min_double, center_y = 0,
             children = (\<lambda>_. Null)(0 := StarP 0)\<rparr>)"
section \<open>The shape of the arena during the build\<close>

text \<open>
  What the build keeps true of the arena. The quads below \<^verbatim>\<open>quad_count\<close> are in use, the
  others are still zeroed. A child slot that points to a quad points to a quad in use,
  never to the root and never to the quad itself; below a quad of non-zero size it points
  to a quad that was made later and has a non-zero size.
\<close>

definition child_ok :: "bstate \<Rightarrow> nat \<Rightarrow> ptr \<Rightarrow> bool" where
  "child_ok st j p =
     (\<forall>c. p = QuadP c \<longrightarrow>
        0 < c \<and> c < quad_count st \<and> c \<noteq> j \<and>
        (quad_size (b_quads st j) \<noteq> 0 \<longrightarrow> j < c \<and> quad_size (b_quads st c) \<noteq> 0))"

definition tree_ok :: "bstate \<Rightarrow> bool" where
  "tree_ok st =
     (0 < quad_count st \<and>
      (\<forall>j. quad_count st \<le> j \<longrightarrow> b_quads st j = zero_quad) \<and>
      (\<forall>j k. j < quad_count st \<longrightarrow> child_ok st j (children (b_quads st j) k)))"

section \<open>The stars that were added to a quad\<close>

text \<open>
  The stars inserted below a quad are recorded next to the build, which itself is left as
  it is: a pass of the loop body for the star \<open>i\<close> at the quad \<open>j\<close> adds \<open>i\<close> to the quad
  \<open>j\<close> (lines 240 to 243), and a new quad starts with what the node it replaces stands
  for (lines 251 to 253): that star, or the stars of that quad.
\<close>

fun ptr_members :: "(nat \<Rightarrow> nat list) \<Rightarrow> ptr \<Rightarrow> nat list" where
  "ptr_members m (StarP k) = [k]"
| "ptr_members m (QuadP c) = m c"
| "ptr_members m Null = []"

definition step_members ::
  "star list \<Rightarrow> nat \<Rightarrow> nat \<Rightarrow> bstate \<Rightarrow> (nat \<Rightarrow> nat list) \<Rightarrow> nat \<Rightarrow> nat list" where
  "step_members ss i j st m =
     (let m1 = m(j := i # m j);
          c = children (b_quads st j) (get_quadrant (b_quads st j) (node_x (ss ! i)) (node_y (ss ! i)))
      in if c \<noteq> Null \<and> ptr_size (b_quads st) c = 0
         then m1(quad_count st := ptr_members m1 c) else m1)"

text \<open>The record follows the loops of \<^verbatim>\<open>insert_star\<close> and \<^verbatim>\<open>insert_stars\<close> pass by pass.\<close>

fun star_members ::
  "nat \<Rightarrow> star list \<Rightarrow> nat \<Rightarrow> nat \<Rightarrow> bstate \<Rightarrow> (nat \<Rightarrow> nat list) \<Rightarrow> nat \<Rightarrow> nat list" where
  "star_members 0 ss i j st m = m"
| "star_members (Suc fuel) ss i j st m =
     (case insert_step ss i j st of
        (st', QuadP j') \<Rightarrow>
          if quad_size (b_quads st' j') \<noteq> 0
          then star_members fuel ss i j' st' (step_members ss i j st m)
          else step_members ss i j st m
      | (st', _) \<Rightarrow> step_members ss i j st m)"

fun stars_members ::
  "nat \<Rightarrow> star list \<Rightarrow> nat list \<Rightarrow> bstate \<Rightarrow> (nat \<Rightarrow> nat list) \<Rightarrow> nat \<Rightarrow> nat list" where
  "stars_members fuel ss [] st m = m"
| "stars_members fuel ss (i # is) st m =
     (case insert_star fuel ss i 0 st of
        None \<Rightarrow> m
      | Some st' \<Rightarrow> stars_members fuel ss is st' (star_members fuel ss i 0 st m))"

definition tree_members :: "nat \<Rightarrow> star list \<Rightarrow> (nat \<Rightarrow> quad) \<Rightarrow> nat \<Rightarrow> nat list" where
  "tree_members fuel ss qs = stars_members fuel ss [0 ..< length ss] (init_root ss qs) (\<lambda>_. [])"

text \<open>
  A quad agrees with the stars \<open>ms\<close> added to it: its mass is the sum of their masses and
  its position times that sum is the sum of their positions weighted by mass; with no
  star it still is at the origin. Its leaves are stars of the array.
\<close>

definition node_ok :: "star list \<Rightarrow> quad \<Rightarrow> nat list \<Rightarrow> bool" where
  "node_ok ss q ms =
     ((\<forall>k\<in>set ms. k < length ss) \<and>
      (\<forall>slot k. children q slot = StarP k \<longrightarrow> k < length ss) \<and>
      (ms = [] \<longrightarrow> quad_x q = 0 \<and> quad_y q = 0) \<and>
      quad_mass q = (\<Sum>k\<leftarrow>ms. node_mass (ss ! k)) \<and>
      quad_x q * (\<Sum>k\<leftarrow>ms. node_mass (ss ! k)) = (\<Sum>k\<leftarrow>ms. node_mass (ss ! k) * node_x (ss ! k)) \<and>
      quad_y q * (\<Sum>k\<leftarrow>ms. node_mass (ss ! k)) = (\<Sum>k\<leftarrow>ms. node_mass (ss ! k) * node_y (ss ! k)))"

definition sums_ok :: "star list \<Rightarrow> bstate \<Rightarrow> (nat \<Rightarrow> nat list) \<Rightarrow> bool" where
  "sums_ok ss st m = (\<forall>j < quad_count st. node_ok ss (b_quads st j) (m j))"

text \<open>
  The stars of the four child slots of a quad, each as often as it occurs: a leaf stands
  for its star, a child quad for the stars added to it.
\<close>

definition kids_members :: "(nat \<Rightarrow> nat list) \<Rightarrow> (nat \<Rightarrow> ptr) \<Rightarrow> nat multiset" where
  "kids_members m ch = (\<Sum>s<4. mset (ptr_members m (ch s)))"

text \<open>No quad is the child of two slots.\<close>

definition one_parent :: "bstate \<Rightarrow> bool" where
  "one_parent st =
     (\<forall>p p' s s' c. p < quad_count st \<and> p' < quad_count st \<and>
        children (b_quads st p) s = QuadP c \<and> children (b_quads st p') s' = QuadP c \<longrightarrow>
        p = p' \<and> s = s')"

text \<open>
  While the star \<open>i\<close> is on its way down and is about to be added to the quad \<open>j\<close>: the
  quads have non-zero sizes and use the slots 0 to 3 only, and the stars added to a quad
  are the stars of its children, and \<open>i\<close> for the quad whose child \<open>j\<close> is. With \<open>j = 0\<close>
  no quad is the exception, since the root is no child.
\<close>

definition dec_inv :: "bstate \<Rightarrow> (nat \<Rightarrow> nat list) \<Rightarrow> nat \<Rightarrow> nat \<Rightarrow> bool" where
  "dec_inv st m j i =
     ((\<forall>q < quad_count st. quad_size (b_quads st q) \<noteq> 0) \<and>
      (\<forall>q < quad_count st. \<forall>s \<ge> 4. children (b_quads st q) s = Null) \<and>
      one_parent st \<and>
      (\<forall>q < quad_count st.
         mset (m q) = kids_members m (children (b_quads st q)) +
           (if \<exists>s. children (b_quads st q) s = QuadP j then {#i#} else {#})))"

section \<open>The squares of the quads\<close>

text \<open>A point lies in the closed square of a quad.\<close>

definition in_square :: "quad \<Rightarrow> real \<Rightarrow> real \<Rightarrow> bool" where
  "in_square q px py =
     (\<bar>px - center_x q\<bar> \<le> quad_size q / 2 \<and> \<bar>py - center_y q\<bar> \<le> quad_size q / 2)"

text \<open>The quad \<open>ch\<close> is the quarter of \<open>parent\<close> that the slot number names.\<close>

definition child_geo :: "quad \<Rightarrow> nat \<Rightarrow> quad \<Rightarrow> bool" where
  "child_geo parent slot ch =
     (quad_size ch = quad_size parent / 2 \<and>
      center_x ch = center_x parent + (if bit slot 0 then quad_size parent / 4 else - (quad_size parent / 4)) \<and>
      center_y ch = center_y parent + (if bit slot 1 then quad_size parent / 4 else - (quad_size parent / 4)))"

text \<open>Two quads with the same square.\<close>

definition same_frame :: "quad \<Rightarrow> quad \<Rightarrow> bool" where
  "same_frame q q' =
     (quad_size q = quad_size q' \<and> center_x q = center_x q' \<and> center_y q = center_y q')"

text \<open>
  While the star \<open>t\<close> is inserted: a quad other than the root is at least \<open>d\<close> wide, its
  child quads are its quarters, and its leaves are stars before \<open>t\<close> that lie in its
  square, each in the slot of its quadrant. The square of the root holds every star.
\<close>

definition quad_geo :: "star list \<Rightarrow> real \<Rightarrow> nat \<Rightarrow> (nat \<Rightarrow> quad) \<Rightarrow> nat \<Rightarrow> bool" where
  "quad_geo ss d t qs a =
     ((a \<noteq> 0 \<longrightarrow> d \<le> quad_size (qs a)) \<and>
      (\<forall>slot c. children (qs a) slot = QuadP c \<longrightarrow> child_geo (qs a) slot (qs c)) \<and>
      (\<forall>slot k. children (qs a) slot = StarP k \<longrightarrow>
         k < t \<and> in_square (qs a) (node_x (ss ! k)) (node_y (ss ! k)) \<and>
         get_quadrant (qs a) (node_x (ss ! k)) (node_y (ss ! k)) = slot))"

definition geo_ok :: "star list \<Rightarrow> real \<Rightarrow> nat \<Rightarrow> bstate \<Rightarrow> bool" where
  "geo_ok ss d t st =
     ((\<forall>i < length ss. in_square (b_quads st 0) (node_x (ss ! i)) (node_y (ss ! i))) \<and>
      (\<forall>a < quad_count st. quad_geo ss d t (b_quads st) a))"

text \<open>
  The distance of two stars in the maximum norm, and a positive distance \<open>d\<close> that any
  two stars of the array keep.
\<close>

definition apart :: "star \<Rightarrow> star \<Rightarrow> real" where
  "apart s s' = max \<bar>node_x s - node_x s'\<bar> \<bar>node_y s - node_y s'\<bar>"

definition separated :: "star list \<Rightarrow> real \<Rightarrow> bool" where
  "separated ss d =
     (0 < d \<and> (\<forall>a < length ss. \<forall>b < length ss. a \<noteq> b \<longrightarrow> d \<le> apart (ss ! a) (ss ! b)))"

section \<open>The shape of the arena during the build in doubles\<close>

text \<open>
  What the build in doubles keeps true of the arena. The quads below \<^verbatim>\<open>quad_count\<close> are
  in use, the others are still zeroed. A child slot that points to a quad points to a quad
  in use other than the root, and the size of that quad is the half of the size of its
  parent, rounded to a double.
\<close>

definition d_tree_ok :: "bstate \<Rightarrow> bool" where
  "d_tree_ok st =
     (0 < quad_count st \<and>
      (\<forall>j. quad_count st \<le> j \<longrightarrow> b_quads st j = zero_quad) \<and>
      (\<forall>j s c. j < quad_count st \<and> children (b_quads st j) s = QuadP c \<longrightarrow>
         0 < c \<and> c < quad_count st \<and>
         quad_size (b_quads st c) = rd (quad_size (b_quads st j) / 2)))"

text \<open>
  The star \<open>k\<close> is a leaf of the tree: one of the four child slots of a quad in use
  points to it.
\<close>

definition is_leaf :: "bstate \<Rightarrow> nat \<Rightarrow> bool" where
  "is_leaf st k = (\<exists>j < quad_count st. \<exists>s < 4. children (b_quads st j) s = StarP k)"

text \<open>No quad in use other than the root has the size zero.\<close>

definition no_underflow :: "bstate \<Rightarrow> bool" where
  "no_underflow st = (\<forall>n. 0 < n \<and> n < quad_count st \<longrightarrow> quad_size (b_quads st n) \<noteq> 0)"
section \<open>The quadrant of a star\<close>

text \<open>
  Claim C2, as the specification states it: a star whose coordinate equals the centre
  coordinate of the quad counts as lying on the greater side, so the bit of that axis is
  set. The code compares with \<^verbatim>\<open>>\<close>: at the centre of the zeroed quad both bits are
  clear.
\<close>

theorem get_quadrant_tie_counterexample:
  "center_x zero_quad = 0 \<and> center_y zero_quad = 0 \<and>
   \<not> bit (get_quadrant zero_quad 0 0) 0 \<and> \<not> bit (get_quadrant zero_quad 0 0) 1"
  by (simp add: get_quadrant_def zero_quad_def)

text \<open>
  Claim C2, amended: bit 0 of the quadrant is set exactly when the star's x is strictly
  greater than the centre's x, and bit 1 exactly when its y is strictly greater than the
  centre's y; a star whose coordinate equals the centre coordinate is on the lesser side
  (bit clear).
\<close>

theorem get_quadrant_bits:
  "bit (get_quadrant q sx sy) 0 = (sx > center_x q) \<and>
   bit (get_quadrant q sx sy) 1 = (sy > center_y q) \<and>
   \<not> bit (get_quadrant q (center_x q) sy) 0 \<and>
   \<not> bit (get_quadrant q sx (center_y q)) 1"
  by (simp add: get_quadrant_def Let_def bit_iff_odd)

section \<open>The cases of the force kernel\<close>

text \<open>
  Claim C3: with \<open>d\<close> the offset from the target star to the node's centre of mass and
  \<open>r2 = d \<cdot> d\<close>, a call of \<^verbatim>\<open>get_accel\<close> adds the vector of length
  \<open>mass / (r2 + \<epsilon>)\<close> and angle \<open>atan2 dy dx\<close> to the accumulator when
  \<open>sqrt r2 > size * \<theta>\<close>; otherwise, when the size is not zero, it calls itself on
  exactly the child slots that are not NULL, in the order 0 to 3, passing the accumulator
  along; otherwise it leaves the accumulator as it is.
\<close>

theorem get_accel_cases:
  fixes cfg ss qs i p accel n
  defines "dx \<equiv> ptr_x ss qs p - node_x (ss ! i)"
  defines "dy \<equiv> ptr_y ss qs p - node_y (ss ! i)"
  defines "r2 \<equiv> dx * dx + dy * dy"
  shows
   "get_accel (Suc n) cfg ss qs i p accel =
      (if sqrt r2 > ptr_size qs p * accuracy cfg then
         Some \<lparr>vx = vx accel + ptr_mass ss qs p / (r2 + epsilon cfg) * cos (atan2 dy dx),
               vy = vy accel + ptr_mass ss qs p / (r2 + epsilon cfg) * sin (atan2 dy dx)\<rparr>
       else if ptr_size qs p \<noteq> 0 then
         fold (\<lambda>c r. Option.bind r (get_accel n cfg ss qs i c))
              (filter (\<lambda>c. c \<noteq> Null)
                 (case p of QuadP j \<Rightarrow> map (children (qs j)) [0, 1, 2, 3] | _ \<Rightarrow> []))
              (Some accel)
       else Some accel)"
proof (cases p)
  case (QuadP j)
  then show ?thesis
    unfolding r2_def dx_def dy_def
    by (simp add: Let_def accept_node_def accel_denominator_def)
next
  case Null
  then show ?thesis
    unfolding r2_def dx_def dy_def
    by (simp add: Let_def accept_node_def accel_denominator_def)
next
  case (StarP k)
  then show ?thesis
    unfolding r2_def dx_def dy_def
    by (simp add: Let_def accept_node_def accel_denominator_def)
qed

section \<open>The clamp of the timestep\<close>

text \<open>
  Claim C7: for a wall-clock delta \<open>d\<close>, the timestep of the frame is
  \<open>min d (1 / min_fps) * speed\<close>. When \<open>d\<close> is at least \<open>1 / min_fps\<close> it is
  \<open>(1 / min_fps) * speed\<close>, and for a speed factor that is not negative it never exceeds
  that value. \<^verbatim>\<open>min_fps\<close> is not zero, so that the quotient of the model is the
  quotient of the C code.
\<close>

theorem frame_time_clamped:
  assumes "min_fps cfg \<noteq> 0"
  shows "clamp_frame_time cfg d = min d (1 / min_fps cfg) * speed cfg \<and>
         (1 / min_fps cfg \<le> d \<longrightarrow> clamp_frame_time cfg d = 1 / min_fps cfg * speed cfg) \<and>
         (0 \<le> speed cfg \<longrightarrow> clamp_frame_time cfg d \<le> 1 / min_fps cfg * speed cfg)"
proof -
  have "d \<le> 1 / min_fps cfg \<Longrightarrow> 0 \<le> speed cfg \<Longrightarrow> d * speed cfg \<le> 1 / min_fps cfg * speed cfg"
    by (rule mult_right_mono)
  then show ?thesis
    by (auto simp: clamp_frame_time_def Let_def min_def)
qed

text \<open>Claim C7 at a delta of 5 seconds, with \<^verbatim>\<open>min_fps\<close> 10 and speed factor 2.\<close>

theorem frame_time_clamped_witness:
  "min_fps \<lparr>accuracy = 1, epsilon = 1, gravity = 1, speed = 2, min_fps = 10\<rparr> \<noteq> 0 \<and>
   1 / min_fps \<lparr>accuracy = 1, epsilon = 1, gravity = 1, speed = 2, min_fps = 10\<rparr> \<le> 5 \<and>
   0 \<le> speed \<lparr>accuracy = 1, epsilon = 1, gravity = 1, speed = 2, min_fps = 10\<rparr> \<and>
   clamp_frame_time \<lparr>accuracy = 1, epsilon = 1, gravity = 1, speed = 2, min_fps = 10\<rparr> 5 = 1 / 5"
  using frame_time_clamped [of "\<lparr>accuracy = 1, epsilon = 1, gravity = 1, speed = 2, min_fps = 10\<rparr>" 5]
  by simp
section \<open>The star update reads only positions and masses\<close>

lemma same_nodes_refl: "same_nodes ss ss"
  by (simp add: same_nodes_def)

lemma same_nodes_trans: "same_nodes a b \<Longrightarrow> same_nodes b c \<Longrightarrow> same_nodes a c"
  by (simp add: same_nodes_def)

lemma ptr_same_nodes:
  "same_nodes ss ss' \<Longrightarrow> ptr_x ss qs p = ptr_x ss' qs p \<and> ptr_y ss qs p = ptr_y ss' qs p \<and>
     ptr_mass ss qs p = ptr_mass ss' qs p"
  by (cases p) (simp_all add: same_nodes_def)

lemma get_accel_same_nodes:
  "same_nodes ss ss' \<Longrightarrow> get_accel fuel cfg ss qs i p accel = get_accel fuel cfg ss' qs i p accel"
proof (induction fuel arbitrary: p accel)
  case 0
  then show ?case by simp
next
  case (Suc fuel)
  have px: "ptr_x ss qs p = ptr_x ss' qs p" "ptr_y ss qs p = ptr_y ss' qs p"
    "ptr_mass ss qs p = ptr_mass ss' qs p"
    using ptr_same_nodes [OF Suc.prems] by simp_all
  have nx: "node_x (ss ! i) = node_x (ss' ! i)" "node_y (ss ! i) = node_y (ss' ! i)"
    using Suc.prems by (simp_all add: same_nodes_def)
  have ih: "\<And>p accel. get_accel fuel cfg ss qs i p accel = get_accel fuel cfg ss' qs i p accel"
    using Suc.IH [OF Suc.prems] .
  show ?case
    by (simp only: get_accel.simps px nx ih)
qed

lemma update_star_eq:
  "update_star fuel cfg ft qs i ss =
     map_option (\<lambda>a. ss[i := kick cfg ft a (ss ! i)])
       (get_accel fuel cfg ss qs i (QuadP 0) \<lparr>vx = 0, vy = 0\<rparr>)"
  by (simp add: update_star_def kick_def Let_def split: option.splits)

lemma kick_node [simp]:
  "node_x (kick cfg ft a s) = node_x s" "node_y (kick cfg ft a s) = node_y s"
  "node_mass (kick cfg ft a s) = node_mass s"
  by (simp_all add: kick_def)

lemma same_nodes_update: "same_nodes ss (ss[i := kick cfg ft a (ss ! i)])"
proof (cases "i < length ss")
  case True
  then show ?thesis by (simp add: same_nodes_def nth_list_update)
next
  case False
  then show ?thesis by (simp add: same_nodes_def list_update_beyond not_less)
qed

lemma update_star_same_nodes:
  "update_star fuel cfg ft qs i ss = Some ss' \<Longrightarrow> same_nodes ss ss'"
  by (auto simp: update_star_eq same_nodes_update)

lemma update_stars_same_nodes:
  "update_stars fuel cfg ft qs is ss = Some ss' \<Longrightarrow> same_nodes ss ss'"
proof (induction "is" arbitrary: ss)
  case Nil
  then show ?case by (simp add: same_nodes_refl)
next
  case (Cons i "is")
  then show ?case
    by (auto split: option.splits dest: update_star_same_nodes intro: same_nodes_trans)
qed

lemma update_stars_append:
  "update_stars fuel cfg ft qs (xs @ ys) ss =
     Option.bind (update_stars fuel cfg ft qs xs ss) (update_stars fuel cfg ft qs ys)"
  by (induction xs arbitrary: ss) (auto split: option.splits)

lemma update_stars_canonical:
  "distinct is \<Longrightarrow>
   update_stars fuel cfg ft qs is ss =
     (if \<forall>i\<in>set is. walk fuel cfg ss qs i \<noteq> None
      then Some (map (\<lambda>k. if k \<in> set is then kick cfg ft (the (walk fuel cfg ss qs k)) (ss ! k) else ss ! k)
                   [0 ..< length ss])
      else None)"
proof (induction "is" arbitrary: ss)
  case Nil
  then show ?case by (simp add: map_nth)
next
  case (Cons i "is")
  show ?case
  proof (cases "walk fuel cfg ss qs i")
    case None
    then show ?thesis by (simp add: update_star_eq walk_def)
  next
    case (Some a)
    define ss1 where "ss1 = ss[i := kick cfg ft a (ss ! i)]"
    have sn: "same_nodes ss ss1" unfolding ss1_def by (rule same_nodes_update)
    have w: "\<And>k. walk fuel cfg ss1 qs k = walk fuel cfg ss qs k"
      unfolding walk_def using get_accel_same_nodes [OF sn] by simp
    have us: "update_star fuel cfg ft qs i ss = Some ss1"
      using Some by (simp add: update_star_eq walk_def ss1_def)
    have d: "distinct is" "i \<notin> set is" using Cons.prems by simp_all
    have len: "length ss1 = length ss" by (simp add: ss1_def)
    have "update_stars fuel cfg ft qs (i # is) ss = update_stars fuel cfg ft qs is ss1"
      using us by simp
    also have "\<dots> = (if \<forall>i\<in>set is. walk fuel cfg ss qs i \<noteq> None
      then Some (map (\<lambda>k. if k \<in> set is then kick cfg ft (the (walk fuel cfg ss qs k)) (ss1 ! k) else ss1 ! k)
                   [0 ..< length ss])
      else None)"
      using Cons.IH [OF d(1), of ss1] by (simp add: w len)
    also have "\<dots> = (if \<forall>i\<in>set (i # is). walk fuel cfg ss qs i \<noteq> None
      then Some (map (\<lambda>k. if k \<in> set (i # is) then kick cfg ft (the (walk fuel cfg ss qs k)) (ss ! k) else ss ! k)
                   [0 ..< length ss])
      else None)"
    proof -
      have keep: "\<And>k. k \<in> set is \<Longrightarrow> ss1 ! k = ss ! k"
        using d(2) unfolding ss1_def by (metis nth_list_update_neq)
      have other: "\<And>k. k < length ss \<Longrightarrow> k \<notin> set is \<Longrightarrow>
          ss1 ! k = (if k = i then kick cfg ft a (ss ! k) else ss ! k)"
        by (simp add: ss1_def nth_list_update)
      show ?thesis using Some by (auto simp: keep other)
    qed
    finally show ?thesis .
  qed
qed

lemma update_stars_perm:
  assumes "mset is = mset js" "distinct js"
  shows "update_stars fuel cfg ft qs is ss = update_stars fuel cfg ft qs js ss"
proof -
  have "distinct is" using assms by (metis mset_eq_imp_distinct_iff)
  moreover have "set is = set js" using assms(1) by (rule mset_eq_setD)
  ultimately show ?thesis
    using assms(2) by (simp add: update_stars_canonical)
qed


lemma part_end_start: "part_end n P p = part_start n P (Suc p)"
  by (simp add: part_end_def part_start_def)

lemma part_start_mono: "part_start n P p \<le> part_start n P (Suc p)"
  by (simp add: part_start_def div_le_mono)

lemma concat_part_ranges:
  "concat (map (part_range n P) [0 ..< k]) = [0 ..< part_start n P k]"
proof (induction k)
  case 0
  then show ?case by (simp add: part_start_def)
next
  case (Suc k)
  have "[0 ..< part_start n P (Suc k)] = [0 ..< part_start n P k] @ [part_start n P k ..< part_start n P (Suc k)]"
    using part_start_mono [of n P k]
    by (metis le0 upt_add_eq_append le_Suc_ex)
  then show ?case
    using Suc by (simp add: part_range_def part_end_start)
qed

lemma part_start_all: "0 < P \<Longrightarrow> part_start n P P = n"
  by (simp add: part_start_def)

lemma mset_concat_map:
  "mset xs = mset ys \<Longrightarrow> mset (concat (map f xs)) = mset (concat (map f ys))"
proof -
  assume a: "mset xs = mset ys"
  have "\<And>zs. mset (concat (map f zs)) = sum_mset (image_mset (\<lambda>z. mset (f z)) (mset zs))"
    by (induct_tac zs) simp_all
  then show ?thesis using a by simp
qed

lemma pool_indices:
  assumes "distinct order" "set order = {0 ..< P}" "0 < P"
  shows "mset (concat (map (part_range n P) order)) = mset [0 ..< n]"
proof -
  have "mset order = mset [0 ..< P]"
    using assms(1,2) by (metis distinct_upt set_upt set_eq_iff_mset_eq_distinct)
  then have "mset (concat (map (part_range n P) order)) = mset (concat (map (part_range n P) [0 ..< P]))"
    by (rule mset_concat_map)
  then show ?thesis
    using assms(3) by (simp add: concat_part_ranges part_start_all)
qed

lemma update_stars_length:
  "update_stars fuel cfg ft qs is ss = Some ss' \<Longrightarrow> length ss' = length ss"
  using update_stars_same_nodes [of fuel cfg ft qs "is" ss ss'] by (simp add: same_nodes_def)

lemma run_pool_eq:
  "run_pool fuel cfg ft qs P order ss =
     update_stars fuel cfg ft qs (concat (map (part_range (length ss) P) order)) ss"
proof (induction order arbitrary: ss)
  case Nil
  then show ?case by simp
next
  case (Cons p order)
  show ?case
  proof (cases "update_stars_job fuel cfg ft qs P p ss")
    case None
    then show ?thesis
      by (simp add: update_stars_append update_stars_job_def part_range_def)
  next
    case (Some ss1)
    then have "length ss1 = length ss"
      by (simp add: update_stars_job_def update_stars_length)
    then show ?thesis
      using Some Cons.IH [of ss1]
      by (simp add: update_stars_append update_stars_job_def part_range_def)
  qed
qed

lemma pool_is_inline:
  assumes "distinct order" "set order = {0 ..< P}" "0 < P"
  shows "run_pool fuel cfg ft qs P order ss = update_stars fuel cfg ft qs [0 ..< length ss] ss"
  unfolding run_pool_eq
  by (rule update_stars_perm [OF pool_indices [OF assms]]) simp


lemma accel_phase_same_nodes:
  "accel_phase fuel cfg ft qs P order ss = Some ss' \<Longrightarrow> same_nodes ss ss'"
  by (auto simp: accel_phase_def run_pool_eq split: if_splits dest: update_stars_same_nodes)

lemma same_nodes_mass: "same_nodes ss ss' \<Longrightarrow> map node_mass ss' = map node_mass ss"
  by (rule nth_equalityI) (simp_all add: same_nodes_def)

lemma world_frame_SomeD:
  assumes "world_frame fuel cfg order time w = Some w'"
  shows "\<exists>b ss1. build_tree fuel (stars w) (quads w) = Some b \<and>
     accel_phase fuel cfg (clamp_frame_time cfg time) (b_quads b) (cores w) order (stars w) = Some ss1 \<and>
     stars w' = map (move_star (clamp_frame_time cfg time)) ss1 \<and>
     cores w' = cores w"
  using assms by (auto simp: world_frame_def Let_def split: option.splits)


lemma clamp_zero: "0 < min_fps cfg \<Longrightarrow> clamp_frame_time cfg 0 = 0"
  by (simp add: clamp_frame_time_def)

lemma move_star_zero: "move_star 0 = (\<lambda>s. s)"
  by (rule ext) (simp add: move_star_def)

lemma kick_zero:
  "kick cfg 0 a s = s\<lparr>speed_x := speed_x s + accel_x s, speed_y := speed_y s + accel_y s,
                       accel_x := 0, accel_y := 0\<rparr>"
  unfolding kick_def by simp

lemma map_index: "map (\<lambda>k. f (xs ! k)) [0 ..< length xs] = map f xs"
  by (rule nth_equalityI) simp_all

lemma update_stars_all:
  assumes "update_stars fuel cfg ft qs [0 ..< length ss] ss = Some ss'"
  shows "ss' = map (\<lambda>k. kick cfg ft (the (walk fuel cfg ss qs k)) (ss ! k)) [0 ..< length ss]"
proof -
  have "distinct [0 ..< length ss]" by simp
  from update_stars_canonical [OF this, of fuel cfg ft qs ss] assms
  show ?thesis by (auto split: if_splits)
qed


section \<open>The two-star example, evaluated\<close>

lemma gq: "get_quadrant q sx sy = (if sx > center_x q then 1 else 0) + (if sy > center_y q then 2 else 0)"
  by (simp add: get_quadrant_def)

lemma bounds2: "xmin_world two_stars = 0" "xmax_world two_stars = 1" "ymin_world two_stars = 0" "ymax_world two_stars = 0"
  by (simp_all add: xmin_world_def xmax_world_def ymin_world_def ymax_world_def two_stars_def lower_bound_def upper_bound_def)

lemma nth2: "two_stars ! 0 = \<lparr>node_x = 0, node_y = 0, node_mass = 1, speed_x = 0, speed_y = 2, accel_x = 3, accel_y = 0\<rparr>"
  "two_stars ! Suc 0 = \<lparr>node_x = 1, node_y = 0, node_mass = 3, speed_x = 0, speed_y = 0, accel_x = 0, accel_y = 5\<rparr>"
  "length two_stars = 2"
  by (simp_all add: two_stars_def)

lemma up2: "[0..<2] = [0, Suc 0]" by (simp add: upt_rec)

lemma build2: "build_tree 2 two_stars (\<lambda>_. zero_quad) = Some \<lparr>b_quads = two_star_tree, quad_count = 1\<rparr>"
  by (simp add: two_star_tree_def build_tree_def nth2 up2 init_root_def bounds2 zero_quad_def insert_step_def add_star_def gq set_child_def make_quad_def Let_def eval_nat_numeral)

lemma walk2:
  "get_accel 2 example_config two_stars two_star_tree 0 (QuadP 0) \<lparr>vx = 0, vy = 0\<rparr> = Some \<lparr>vx = 3 / 2, vy = 0\<rparr>"
  "get_accel 2 example_config two_stars two_star_tree (Suc 0) (QuadP 0) \<lparr>vx = 0, vy = 0\<rparr> = Some \<lparr>vx = - (1 / 2), vy = 0\<rparr>"
  by (simp_all add: two_star_tree_def nth2 Let_def example_config_def accept_node_def accel_denominator_def atan2_def eval_nat_numeral)

lemma order2: "distinct [1, 0::nat]" "set [1, 0::nat] = {0 ..< 2}"
  by auto

lemma accel2:
  "\<exists>ss1. accel_phase 2 example_config ft two_star_tree 2 [1, 0] two_stars = Some ss1"
proof -
  have "accel_phase 2 example_config ft two_star_tree 2 [1, 0] two_stars =
        update_stars 2 example_config ft two_star_tree [0 ..< length two_stars] two_stars"
  proof -
    have "run_pool 2 example_config ft two_star_tree 2 [1, 0] two_stars =
        update_stars 2 example_config ft two_star_tree [0 ..< length two_stars] two_stars"
      by (rule pool_is_inline [OF order2]) simp
    then show ?thesis by (simp add: accel_phase_def)
  qed
  also have "\<dots> \<noteq> None"
  proof -
    have "walk 2 example_config two_stars two_star_tree i \<noteq> None" if "i < 2" for i
      using less_2_cases [OF that] by (auto simp: walk_def walk2)
    then have "\<forall>i\<in>set [0 ..< length two_stars]. walk 2 example_config two_stars two_star_tree i \<noteq> None"
      by (simp add: nth2)
    moreover have "distinct [0 ..< length two_stars]" by simp
    ultimately show ?thesis
      by (simp only: update_stars_canonical if_True) simp
  qed
  finally show ?thesis by auto
qed

lemma world2: "stars two_star_world = two_stars" "cores two_star_world = 2"
  "length two_stars = 2" "map node_mass two_stars = [1, 3]"
  by (simp_all add: two_star_world_def two_stars_def)

lemma frame2: "\<exists>w'. world_frame 2 example_config [1, 0] t two_star_world = Some w'"
proof -
  obtain ss1 where "accel_phase 2 example_config (clamp_frame_time example_config t) two_star_tree 2 [1, 0] two_stars = Some ss1"
    using accel2 by blast
  then show ?thesis
    by (simp add: world_frame_def two_star_world_def build2 Let_def)
qed

section \<open>The build keeps the shape of the arena\<close>

lemma add_star_fields [simp]:
  "center_x (add_star s q) = center_x q" "center_y (add_star s q) = center_y q"
  "quad_size (add_star s q) = quad_size q" "children (add_star s q) = children q"
  "quad_mass (add_star s q) = quad_mass q + node_mass s"
  by (simp_all add: add_star_def Let_def)

lemma get_quadrant_add_star [simp]: "get_quadrant (add_star s q) sx sy = get_quadrant q sx sy"
  by (simp add: get_quadrant_def)

lemma set_child_fields [simp]:
  "center_x (set_child q k p) = center_x q" "center_y (set_child q k p) = center_y q"
  "quad_size (set_child q k p) = quad_size q" "quad_mass (set_child q k p) = quad_mass q"
  "quad_x (set_child q k p) = quad_x q" "quad_y (set_child q k p) = quad_y q"
  "children (set_child q k p) = (children q)(k := p)"
  by (simp_all add: set_child_def)

lemma ptr_size_add [simp]: "ptr_size (qs(j := add_star s (qs j))) c = ptr_size qs c"
  by (cases c) simp_all

lemma insert_step_empty:
  assumes "children (b_quads st j) (get_quadrant (b_quads st j) (node_x (ss ! i)) (node_y (ss ! i))) = Null"
  shows "insert_step ss i j st =
     (st\<lparr>b_quads := (b_quads st)(j := set_child (add_star (ss ! i) (b_quads st j))
         (get_quadrant (b_quads st j) (node_x (ss ! i)) (node_y (ss ! i))) (StarP i))\<rparr>, StarP i)"
  using assms by (simp add: insert_step_def Let_def)

lemma insert_step_descend:
  assumes "children (b_quads st j) (get_quadrant (b_quads st j) (node_x (ss ! i)) (node_y (ss ! i))) = c"
    and "c \<noteq> Null" and "ptr_size (b_quads st) c \<noteq> 0"
  shows "insert_step ss i j st = (st\<lparr>b_quads := (b_quads st)(j := add_star (ss ! i) (b_quads st j))\<rparr>, c)"
  using assms by (simp add: insert_step_def Let_def)

lemma insert_step_split:
  assumes "children (b_quads st j) (get_quadrant (b_quads st j) (node_x (ss ! i)) (node_y (ss ! i))) = c"
    and "c \<noteq> Null" and "ptr_size (b_quads st) c = 0" and "j \<noteq> quad_count st"
  shows "insert_step ss i j st =
     (\<lparr>b_quads = (b_quads st)
         (quad_count st := make_quad ss ((b_quads st)(j := add_star (ss ! i) (b_quads st j)))
              (add_star (ss ! i) (b_quads st j))
              (get_quadrant (b_quads st j) (node_x (ss ! i)) (node_y (ss ! i))) c (b_quads st (quad_count st)),
          j := set_child (add_star (ss ! i) (b_quads st j))
              (get_quadrant (b_quads st j) (node_x (ss ! i)) (node_y (ss ! i))) (QuadP (quad_count st))),
       quad_count = quad_count st + 1\<rparr>, QuadP (quad_count st))"
  using assms by (simp add: insert_step_def Let_def fun_upd_twist)

lemma make_quad_fields [simp]:
  "quad_size (make_quad ss qs parent qd old slot) = quad_size parent / 2"
  "quad_mass (make_quad ss qs parent qd old slot) = ptr_mass ss qs old"
  "quad_x (make_quad ss qs parent qd old slot) = ptr_x ss qs old"
  "quad_y (make_quad ss qs parent qd old slot) = ptr_y ss qs old"
  "center_x (make_quad ss qs parent qd old slot) =
     center_x parent + (if bit qd 0 then quad_size parent / 4 else - (quad_size parent / 4))"
  "center_y (make_quad ss qs parent qd old slot) =
     center_y parent + (if bit qd 1 then quad_size parent / 4 else - (quad_size parent / 4))"
  by (simp_all add: make_quad_def Let_def)

lemma make_quad_children:
  "\<exists>k. children (make_quad ss qs parent qd old slot) = (children slot)(k := old)"
  by (auto simp: make_quad_def Let_def)

lemma zero_quad_fields [simp]:
  "children zero_quad = (\<lambda>_. Null)" "quad_size zero_quad = 0" "quad_mass zero_quad = 0"
  "quad_x zero_quad = 0" "quad_y zero_quad = 0" "center_x zero_quad = 0" "center_y zero_quad = 0"
  by (simp_all add: zero_quad_def)

lemma tree_okD:
  assumes "tree_ok st"
  shows "0 < quad_count st"
    and "\<And>j. quad_count st \<le> j \<Longrightarrow> b_quads st j = zero_quad"
    and "\<And>j k c. j < quad_count st \<Longrightarrow> children (b_quads st j) k = QuadP c \<Longrightarrow>
           0 < c \<and> c < quad_count st \<and> c \<noteq> j \<and>
           (quad_size (b_quads st j) \<noteq> 0 \<longrightarrow> j < c \<and> quad_size (b_quads st c) \<noteq> 0)"
  using assms unfolding tree_ok_def child_ok_def
  by blast+

lemma tree_okI:
  assumes "0 < quad_count st"
    and "\<And>j. quad_count st \<le> j \<Longrightarrow> b_quads st j = zero_quad"
    and "\<And>j k c. j < quad_count st \<Longrightarrow> children (b_quads st j) k = QuadP c \<Longrightarrow>
           0 < c \<and> c < quad_count st \<and> c \<noteq> j \<and>
           (quad_size (b_quads st j) \<noteq> 0 \<longrightarrow> j < c \<and> quad_size (b_quads st c) \<noteq> 0)"
  shows "tree_ok st"
  using assms unfolding tree_ok_def child_ok_def by blast

lemma tree_ok_empty:
  assumes ok: "tree_ok st" and j: "j < quad_count st"
  shows "tree_ok (st\<lparr>b_quads := (b_quads st)(j := set_child (add_star s (b_quads st j)) qd (StarP i))\<rparr>)"
proof (rule tree_okI)
  note D = tree_okD [OF ok]
  let ?st' = "st\<lparr>b_quads := (b_quads st)(j := set_child (add_star s (b_quads st j)) qd (StarP i))\<rparr>"
  show "0 < quad_count ?st'" using D(1) by simp
  show "b_quads ?st' a = zero_quad" if "quad_count ?st' \<le> a" for a
    using that D(2) [of a] j by simp
  show "0 < c \<and> c < quad_count ?st' \<and> c \<noteq> a \<and>
       (quad_size (b_quads ?st' a) \<noteq> 0 \<longrightarrow> a < c \<and> quad_size (b_quads ?st' c) \<noteq> 0)"
    if a: "a < quad_count ?st'" "children (b_quads ?st' a) k = QuadP c" for a k c
  proof (cases "a = j")
    case True
    then have "children (b_quads st j) k = QuadP c"
      using a(2) by (simp split: if_splits)
    from D(3) [OF j this] show ?thesis using True by simp
  next
    case False
    then have "children (b_quads st a) k = QuadP c" "a < quad_count st"
      using a by simp_all
    from D(3) [OF this(2) this(1)] show ?thesis using False by auto
  qed
qed

lemma tree_ok_descend:
  assumes ok: "tree_ok st" and j: "j < quad_count st"
  shows "tree_ok (st\<lparr>b_quads := (b_quads st)(j := add_star s (b_quads st j))\<rparr>)"
proof (rule tree_okI)
  note D = tree_okD [OF ok]
  let ?st' = "st\<lparr>b_quads := (b_quads st)(j := add_star s (b_quads st j))\<rparr>"
  show "0 < quad_count ?st'" using D(1) by simp
  show "b_quads ?st' a = zero_quad" if "quad_count ?st' \<le> a" for a
    using that D(2) [of a] j by simp
  show "0 < c \<and> c < quad_count ?st' \<and> c \<noteq> a \<and>
       (quad_size (b_quads ?st' a) \<noteq> 0 \<longrightarrow> a < c \<and> quad_size (b_quads ?st' c) \<noteq> 0)"
    if a: "a < quad_count ?st'" "children (b_quads ?st' a) k = QuadP c" for a k c
  proof (cases "a = j")
    case True
    then have "children (b_quads st j) k = QuadP c"
      using a(2) by simp
    from D(3) [OF j this] show ?thesis using True by simp
  next
    case False
    then have "children (b_quads st a) k = QuadP c" "a < quad_count st"
      using a by simp_all
    from D(3) [OF this(2) this(1)] show ?thesis using False by auto
  qed
qed

lemma tree_ok_split:
  assumes ok: "tree_ok st" and j: "j < quad_count st"
    and c: "children (b_quads st j) qd = c" "ptr_size (b_quads st) c = 0"
    and nq: "nq = make_quad ss qs1 (add_star s (b_quads st j)) qd c (b_quads st (quad_count st))"
  shows "tree_ok \<lparr>b_quads = (b_quads st)(quad_count st := nq,
            j := set_child (add_star s (b_quads st j)) qd (QuadP (quad_count st))),
          quad_count = quad_count st + 1\<rparr>"
proof (rule tree_okI)
  note D = tree_okD [OF ok]
  define n where "n = quad_count st"
  let ?st' = "\<lparr>b_quads = (b_quads st)(quad_count st := nq,
            j := set_child (add_star s (b_quads st j)) qd (QuadP (quad_count st))),
          quad_count = quad_count st + 1\<rparr>"
  have jn: "j \<noteq> n" "j < n" using j by (simp_all add: n_def)
  have zn: "b_quads st n = zero_quad" using D(2) [of n] by (simp add: n_def)
  obtain k0 where nqc: "children nq = (\<lambda>_. Null)(k0 := c)"
    using make_quad_children [of ss qs1 "add_star s (b_quads st j)" qd c "b_quads st n"]
    unfolding nq n_def [symmetric] zn by auto
  have nqs: "quad_size nq = quad_size (b_quads st j) / 2" by (simp add: nq)
  have cq: "0 < c' \<and> c' < n \<and> c' \<noteq> j \<and> quad_size (b_quads st j) = 0" if "c = QuadP c'" for c'
    using that D(3) [of j qd c'] j c by (auto simp: n_def)
  show "0 < quad_count ?st'" by simp
  show "b_quads ?st' a = zero_quad" if "quad_count ?st' \<le> a" for a
    using that D(2) [of a] j by simp
  show "0 < c' \<and> c' < quad_count ?st' \<and> c' \<noteq> a \<and>
       (quad_size (b_quads ?st' a) \<noteq> 0 \<longrightarrow> a < c' \<and> quad_size (b_quads ?st' c') \<noteq> 0)"
    if a: "a < quad_count ?st'" "children (b_quads ?st' a) k = QuadP c'" for a k c'
  proof -
    have "a < Suc n" using a(1) by (simp add: n_def)
    then consider "a = j" | "a = n" | "a \<noteq> j" "a < n"
      using less_Suc_eq by blast
    then show ?thesis
    proof cases
      case 1
      show ?thesis
      proof (cases "k = qd")
        case True
        then have "c' = n" using a(2) 1 by (simp add: n_def)
        then show ?thesis using 1 jn nqs by (simp add: n_def)
      next
        case False
        then have "children (b_quads st j) k = QuadP c'" using a(2) 1 by simp
        from D(3) [OF j this] show ?thesis using 1 jn by (auto simp: n_def)
      qed
    next
      case 2
      then have "c = QuadP c'" using a(2) jn by (auto simp: nqc n_def split: if_splits)
      from cq [OF this] show ?thesis using 2 jn nqs by (auto simp: n_def)
    next
      case 3
      then have "children (b_quads st a) k = QuadP c'" using a(2) by (simp add: n_def)
      from D(3) [OF _ this] 3 show ?thesis by (auto simp: n_def)
    qed
  qed
qed

lemma insert_step_tree_ok:
  assumes ok: "tree_ok st" and j: "j < quad_count st" and step: "insert_step ss i j st = (st', p)"
  shows "tree_ok st' \<and> (\<forall>c. p = QuadP c \<longrightarrow> c < quad_count st')"
proof -
  define qd where "qd = get_quadrant (b_quads st j) (node_x (ss ! i)) (node_y (ss ! i))"
  define c where "c = children (b_quads st j) qd"
  note D = tree_okD [OF ok]
  consider (empty) "c = Null" | (split) "c \<noteq> Null" "ptr_size (b_quads st) c = 0"
    | (descend) "c \<noteq> Null" "ptr_size (b_quads st) c \<noteq> 0"
    by blast
  then show ?thesis
  proof cases
    case empty
    from insert_step_empty [of st j ss i] empty step
    have eq: "st' = st\<lparr>b_quads := (b_quads st)(j := set_child (add_star (ss ! i) (b_quads st j)) qd (StarP i))\<rparr>"
      and p: "p = StarP i"
      unfolding c_def qd_def by simp_all
    show ?thesis unfolding eq p using tree_ok_empty [OF ok j] by simp
  next
    case descend
    from insert_step_descend [of st j ss i c] descend step
    have eq: "st' = st\<lparr>b_quads := (b_quads st)(j := add_star (ss ! i) (b_quads st j))\<rparr>"
      and p: "p = c"
      unfolding c_def qd_def by simp_all
    have "\<forall>c'. p = QuadP c' \<longrightarrow> c' < quad_count st'"
      using D(3) [of j qd] j by (simp add: p c_def eq)
    then show ?thesis unfolding eq using tree_ok_descend [OF ok j] by simp
  next
    case split
    have jn: "j \<noteq> quad_count st" using j by simp
    from insert_step_split [of st j ss i c] split step jn
    have eq: "st' = \<lparr>b_quads = (b_quads st)
         (quad_count st := make_quad ss ((b_quads st)(j := add_star (ss ! i) (b_quads st j)))
              (add_star (ss ! i) (b_quads st j)) qd c (b_quads st (quad_count st)),
          j := set_child (add_star (ss ! i) (b_quads st j)) qd (QuadP (quad_count st))),
       quad_count = quad_count st + 1\<rparr>"
      and p: "p = QuadP (quad_count st)"
      unfolding c_def qd_def by simp_all
    have "tree_ok st'"
      unfolding eq by (rule tree_ok_split [OF ok j c_def [symmetric] split(2) refl])
    then show ?thesis by (simp add: p eq)
  qed
qed

lemma insert_star_tree_ok:
  "tree_ok st \<Longrightarrow> j < quad_count st \<Longrightarrow> insert_star fuel ss i j st = Some st' \<Longrightarrow> tree_ok st'"
proof (induction fuel arbitrary: j st)
  case 0
  then show ?case by simp
next
  case (Suc fuel)
  obtain st1 p where step: "insert_step ss i j st = (st1, p)" by (cases "insert_step ss i j st")
  note ok1 = insert_step_tree_ok [OF Suc.prems(1,2) step]
  show ?case
  proof (cases p)
    case (QuadP c)
    then have c: "c < quad_count st1" using ok1 by simp
    show ?thesis
    proof (cases "quad_size (b_quads st1 c) \<noteq> 0")
      case True
      then have "insert_star fuel ss i c st1 = Some st'"
        using Suc.prems(3) step QuadP by simp
      from Suc.IH [OF _ c this] ok1 show ?thesis by simp
    next
      case False
      then show ?thesis using Suc.prems(3) step QuadP ok1 by simp
    qed
  next
    case Null
    then show ?thesis using Suc.prems(3) step ok1 by simp
  next
    case (StarP k)
    then show ?thesis using Suc.prems(3) step ok1 by simp
  qed
qed

lemma insert_stars_tree_ok:
  "tree_ok st \<Longrightarrow> insert_stars fuel ss is st = Some st' \<Longrightarrow> tree_ok st'"
proof (induction "is" arbitrary: st)
  case Nil
  then show ?case by simp
next
  case (Cons i "is")
  then obtain st1 where s1: "insert_star fuel ss i 0 st = Some st1"
    and rest: "insert_stars fuel ss is st1 = Some st'"
    by (auto split: option.splits)
  have "0 < quad_count st" using Cons.prems(1) by (simp add: tree_ok_def)
  from insert_star_tree_ok [OF Cons.prems(1) this s1] Cons.IH rest show ?case by simp
qed

lemma init_root_tree_ok: "tree_ok (init_root ss (\<lambda>_. zero_quad))"
  by (rule tree_okI) (simp_all add: init_root_def Let_def)

lemma build_tree_ok: "build_tree fuel ss (\<lambda>_. zero_quad) = Some b \<Longrightarrow> tree_ok b"
  unfolding build_tree_def using insert_stars_tree_ok [OF init_root_tree_ok] by blast

lemma get_accel_star: "\<exists>a. get_accel (Suc fuel) cfg ss qs i (StarP k) acc = Some a"
  by (simp add: Let_def)

lemma get_accel_total_aux:
  assumes ok: "tree_ok st"
  shows "j < quad_count st \<Longrightarrow> quad_count st - j < fuel \<Longrightarrow>
         \<exists>a. get_accel fuel cfg ss (b_quads st) i (QuadP j) acc = Some a"
proof (induction "quad_count st - j" arbitrary: j fuel acc rule: less_induct)
  case less
  obtain f where fuel: "fuel = Suc f" using less.prems(2) by (cases fuel) simp_all
  have child: "\<exists>a. (if children (b_quads st j) k \<noteq> Null
          then get_accel f cfg ss (b_quads st) i (children (b_quads st j) k) acc' else Some acc') = Some a"
    if sz: "quad_size (b_quads st j) \<noteq> 0" for k acc'
  proof (cases "children (b_quads st j) k")
    case Null
    then show ?thesis by simp
  next
    case (StarP s)
    have "0 < f" using less.prems fuel by simp
    then obtain f' where "f = Suc f'" by (cases f) simp_all
    then show ?thesis using StarP get_accel_star [of f' cfg ss "b_quads st" i s acc'] by simp
  next
    case (QuadP c)
    from tree_okD(3) [OF ok less.prems(1) QuadP] sz
    have c: "c < quad_count st" "j < c" by simp_all
    then have "quad_count st - c < quad_count st - j" "quad_count st - c < f"
      using less.prems fuel by simp_all
    from less.hyps [OF this(1) c(1) this(2)] show ?thesis using QuadP by simp
  qed
  show ?case
  proof (cases "quad_size (b_quads st j) \<noteq> 0")
    case True
    obtain a0 where a0: "(if children (b_quads st j) 0 \<noteq> Null
          then get_accel f cfg ss (b_quads st) i (children (b_quads st j) 0) acc else Some acc) = Some a0"
      using child [OF True] by blast
    obtain a1 where a1: "(if children (b_quads st j) 1 \<noteq> Null
          then get_accel f cfg ss (b_quads st) i (children (b_quads st j) 1) a0 else Some a0) = Some a1"
      using child [OF True] by blast
    obtain a2 where a2: "(if children (b_quads st j) 2 \<noteq> Null
          then get_accel f cfg ss (b_quads st) i (children (b_quads st j) 2) a1 else Some a1) = Some a2"
      using child [OF True] by blast
    obtain a3 where a3: "(if children (b_quads st j) 3 \<noteq> Null
          then get_accel f cfg ss (b_quads st) i (children (b_quads st j) 3) a2 else Some a2) = Some a3"
      using child [OF True] by blast
    show ?thesis
      unfolding fuel by (simp only: get_accel.simps Let_def ptr_size.simps ptr.case a0 a1 a2 a3 Option.bind.simps)
        (simp add: True)
  next
    case False
    then show ?thesis unfolding fuel by (simp add: Let_def)
  qed
qed

lemma get_accel_total:
  assumes "build_tree fuel ss (\<lambda>_. zero_quad) = Some b"
  shows "\<exists>a. get_accel (Suc (quad_count b)) cfg ss (b_quads b) i (QuadP 0) acc = Some a"
proof -
  have ok: "tree_ok b" using assms by (rule build_tree_ok)
  then have pos: "0 < quad_count b" by (simp add: tree_ok_def)
  have "quad_count b - 0 < Suc (quad_count b)" by simp
  from get_accel_total_aux [OF ok pos this] show ?thesis .
qed

section \<open>The build keeps the sums\<close>

lemma members_mass_nonneg:
  assumes "\<forall>s\<in>set ss. 0 < node_mass s" "\<forall>k\<in>set ms. k < length ss"
  shows "0 \<le> (\<Sum>k\<leftarrow>ms. node_mass (ss ! k))"
  using assms by (intro sum_list_nonneg) (auto simp: less_imp_le)

lemma add_star_x: "quad_mass q + node_mass s \<noteq> 0 \<Longrightarrow>
    quad_x (add_star s q) * (quad_mass q + node_mass s) = quad_x q * quad_mass q + node_x s * node_mass s"
  by (simp add: add_star_def Let_def)

lemma add_star_y: "quad_mass q + node_mass s \<noteq> 0 \<Longrightarrow>
    quad_y (add_star s q) * (quad_mass q + node_mass s) = quad_y q * quad_mass q + node_y s * node_mass s"
  by (simp add: add_star_def Let_def)

lemma node_ok_add_star:
  assumes pos: "\<forall>s\<in>set ss. 0 < node_mass s" and i: "i < length ss" and ok: "node_ok ss q ms"
  shows "node_ok ss (add_star (ss ! i) q) (i # ms)"
proof -
  have "0 \<le> quad_mass q" using ok members_mass_nonneg [OF pos] by (simp add: node_ok_def)
  moreover have "0 < node_mass (ss ! i)" using pos i by simp
  ultimately have nz: "quad_mass q + node_mass (ss ! i) \<noteq> 0" by simp
  have m: "quad_mass q = (\<Sum>k\<leftarrow>ms. node_mass (ss ! k))" using ok by (simp add: node_ok_def)
  show ?thesis
    using ok i add_star_x [OF nz] add_star_y [OF nz] unfolding m
    by (simp add: node_ok_def algebra_simps)
qed

lemma node_ok_set_child_star:
  "node_ok ss q ms \<Longrightarrow> i < length ss \<Longrightarrow> node_ok ss (set_child q k (StarP i)) ms"
  by (simp add: node_ok_def)

lemma node_ok_set_child_quad:
  "node_ok ss q ms \<Longrightarrow> node_ok ss (set_child q k (QuadP n)) ms"
  by (simp add: node_ok_def)

lemma node_ok_make_quad:
  assumes "c \<noteq> Null"
    and "\<And>k. c = StarP k \<Longrightarrow> k < length ss"
    and "\<And>c'. c = QuadP c' \<Longrightarrow> node_ok ss (qs c') (m c')"
  shows "node_ok ss (make_quad ss qs parent qd c zero_quad) (ptr_members m c)"
proof (cases c)
  case Null
  then show ?thesis using assms(1) by simp
next
  case (StarP k)
  then show ?thesis
    using assms(2) [OF StarP] by (simp add: node_ok_def make_quad_def Let_def)
next
  case (QuadP c')
  then show ?thesis
    using assms(3) [OF QuadP] by (simp add: node_ok_def make_quad_def Let_def)
qed

lemma sums_okD: "sums_ok ss st m \<Longrightarrow> j < quad_count st \<Longrightarrow> node_ok ss (b_quads st j) (m j)"
  by (simp add: sums_ok_def)

lemma insert_step_sums_ok:
  assumes pos: "\<forall>s\<in>set ss. 0 < node_mass s" and i: "i < length ss"
    and ok: "tree_ok st" and so: "sums_ok ss st m" and j: "j < quad_count st"
    and step: "insert_step ss i j st = (st', p)"
  shows "sums_ok ss st' (step_members ss i j st m)"
proof -
  define qd where "qd = get_quadrant (b_quads st j) (node_x (ss ! i)) (node_y (ss ! i))"
  define c where "c = children (b_quads st j) qd"
  note D = tree_okD [OF ok]
  have nj: "node_ok ss (b_quads st j) (m j)" using so j by (rule sums_okD)
  have nj1: "node_ok ss (add_star (ss ! i) (b_quads st j)) (i # m j)"
    using pos i nj by (rule node_ok_add_star)
  consider (empty) "c = Null" | (split) "c \<noteq> Null" "ptr_size (b_quads st) c = 0"
    | (descend) "c \<noteq> Null" "ptr_size (b_quads st) c \<noteq> 0"
    by blast
  then show ?thesis
  proof cases
    case empty
    from insert_step_empty [of st j ss i] empty step
    have eq: "st' = st\<lparr>b_quads := (b_quads st)(j := set_child (add_star (ss ! i) (b_quads st j)) qd (StarP i))\<rparr>"
      unfolding c_def qd_def by simp
    have me: "step_members ss i j st m = m(j := i # m j)"
      using empty by (simp add: step_members_def c_def qd_def Let_def)
    show ?thesis
      unfolding sums_ok_def eq me
      using node_ok_set_child_star [OF nj1 i] so by (simp add: sums_ok_def)
  next
    case descend
    from insert_step_descend [of st j ss i c] descend step
    have eq: "st' = st\<lparr>b_quads := (b_quads st)(j := add_star (ss ! i) (b_quads st j))\<rparr>"
      unfolding c_def qd_def by simp
    have me: "step_members ss i j st m = m(j := i # m j)"
      using descend by (simp add: step_members_def c_def [symmetric] qd_def [symmetric] Let_def)
    show ?thesis
      unfolding sums_ok_def eq me
      using nj1 so by (simp add: sums_ok_def)
  next
    case split
    define n where "n = quad_count st"
    define qs1 where "qs1 = (b_quads st)(j := add_star (ss ! i) (b_quads st j))"
    define m1 where "m1 = m(j := i # m j)"
    have jn: "j \<noteq> n" using j by (simp add: n_def)
    from insert_step_split [of st j ss i c] split step jn
    have eq: "st' = \<lparr>b_quads = (b_quads st)
         (n := make_quad ss qs1 (add_star (ss ! i) (b_quads st j)) qd c (b_quads st n),
          j := set_child (add_star (ss ! i) (b_quads st j)) qd (QuadP n)),
       quad_count = n + 1\<rparr>"
      unfolding c_def qd_def n_def qs1_def by simp
    have me: "step_members ss i j st m = m1(n := ptr_members m1 c)"
      using split by (simp add: step_members_def c_def [symmetric] qd_def [symmetric] Let_def m1_def n_def)
    have zn: "b_quads st n = zero_quad" using D(2) [of n] by (simp add: n_def)
    have star: "k < length ss" if "c = StarP k" for k
      using nj that by (auto simp: node_ok_def c_def)
    have quad: "node_ok ss (qs1 c') (m1 c')" if "c = QuadP c'" for c'
    proof -
      have "c' < quad_count st \<and> c' \<noteq> j" using D(3) [OF j] that by (simp add: c_def)
      then show ?thesis using so by (simp add: qs1_def m1_def sums_ok_def)
    qed
    have nn: "node_ok ss (make_quad ss qs1 (add_star (ss ! i) (b_quads st j)) qd c zero_quad) (ptr_members m1 c)"
      using split(1) star quad by (rule node_ok_make_quad)
    have nj2: "node_ok ss (set_child (add_star (ss ! i) (b_quads st j)) qd (QuadP n)) (m1 j)"
      using node_ok_set_child_quad [OF nj1] by (simp add: m1_def)
    show ?thesis
      unfolding sums_ok_def
    proof (intro allI impI)
      fix a assume "a < quad_count st'"
      then have "a < Suc n" by (simp add: eq)
      then consider "a = j" | "a = n" | "a \<noteq> j" "a < n" using less_Suc_eq by blast
      then show "node_ok ss (b_quads st' a) (step_members ss i j st m a)"
      proof cases
        case 1
        then show ?thesis using nj2 jn by (simp add: eq me)
      next
        case 2
        then show ?thesis using nn jn by (simp add: eq me zn)
      next
        case 3
        then show ?thesis using so by (simp add: eq me m1_def sums_ok_def n_def)
      qed
    qed
  qed
qed

lemma step_members_root:
  assumes "tree_ok st"
  shows "step_members ss i j st m 0 = (if j = 0 then i # m 0 else m 0)"
proof -
  have "0 < quad_count st" using assms by (rule tree_okD(1))
  then show ?thesis by (simp add: step_members_def Let_def)
qed

lemma insert_step_next:
  assumes step: "insert_step ss i j st = (st', p)" and j: "j < quad_count st"
  shows "children (b_quads st' j) (get_quadrant (b_quads st j) (node_x (ss ! i)) (node_y (ss ! i))) = p
         \<and> j < quad_count st'"
proof -
  define qd where "qd = get_quadrant (b_quads st j) (node_x (ss ! i)) (node_y (ss ! i))"
  define c where "c = children (b_quads st j) qd"
  consider (empty) "c = Null" | (split) "c \<noteq> Null" "ptr_size (b_quads st) c = 0"
    | (descend) "c \<noteq> Null" "ptr_size (b_quads st) c \<noteq> 0"
    by blast
  then show ?thesis
  proof cases
    case empty
    from insert_step_empty [of st j ss i] empty step
    have "st' = st\<lparr>b_quads := (b_quads st)(j := set_child (add_star (ss ! i) (b_quads st j)) qd (StarP i))\<rparr>"
      and "p = StarP i"
      unfolding c_def qd_def by simp_all
    then show ?thesis using j by (simp add: qd_def)
  next
    case descend
    from insert_step_descend [of st j ss i c] descend step
    have "st' = st\<lparr>b_quads := (b_quads st)(j := add_star (ss ! i) (b_quads st j))\<rparr>"
      and "p = c"
      unfolding c_def qd_def by simp_all
    then show ?thesis using j by (simp add: qd_def c_def)
  next
    case split
    have jn: "j \<noteq> quad_count st" using j by simp
    from insert_step_split [of st j ss i c] split step jn
    have "st' = \<lparr>b_quads = (b_quads st)
         (quad_count st := make_quad ss ((b_quads st)(j := add_star (ss ! i) (b_quads st j)))
              (add_star (ss ! i) (b_quads st j)) qd c (b_quads st (quad_count st)),
          j := set_child (add_star (ss ! i) (b_quads st j)) qd (QuadP (quad_count st))),
       quad_count = quad_count st + 1\<rparr>"
      and "p = QuadP (quad_count st)"
      unfolding c_def qd_def by simp_all
    then show ?thesis using j by (simp add: qd_def)
  qed
qed

lemma insert_star_sums_ok:
  assumes pos: "\<forall>s\<in>set ss. 0 < node_mass s" and i: "i < length ss"
  shows "tree_ok st \<Longrightarrow> sums_ok ss st m \<Longrightarrow> j < quad_count st \<Longrightarrow>
         insert_star fuel ss i j st = Some st' \<Longrightarrow>
         sums_ok ss st' (star_members fuel ss i j st m) \<and>
         star_members fuel ss i j st m 0 = (if j = 0 then i # m 0 else m 0)"
proof (induction fuel arbitrary: j st m)
  case 0
  then show ?case by simp
next
  case (Suc fuel)
  obtain st1 p where step: "insert_step ss i j st = (st1, p)" by (cases "insert_step ss i j st")
  note ok1 = insert_step_tree_ok [OF Suc.prems(1,3) step]
  note so1 = insert_step_sums_ok [OF pos i Suc.prems(1,2,3) step]
  note r1 = step_members_root [OF Suc.prems(1), of ss i j m]
  show ?case
  proof (cases p)
    case (QuadP c)
    then have c: "c < quad_count st1" using ok1 by simp
    show ?thesis
    proof (cases "quad_size (b_quads st1 c) \<noteq> 0")
      case True
      then have run: "insert_star fuel ss i c st1 = Some st'"
        using Suc.prems(4) step QuadP by simp
      have "c \<noteq> 0"
      proof -
        from insert_step_next [OF step Suc.prems(3)] QuadP
        obtain k where "children (b_quads st1 j) k = QuadP c" "j < quad_count st1" by blast
        from tree_okD(3) [OF _ this(2) this(1)] ok1 show ?thesis by blast
      qed
      then show ?thesis
        using Suc.IH [OF _ so1 c run] ok1 r1 step QuadP True by simp
    next
      case False
      then have "st' = st1" using Suc.prems(4) step QuadP by simp
      then show ?thesis using so1 r1 step QuadP False by simp
    qed
  next
    case Null
    then have "st' = st1" using Suc.prems(4) step by simp
    then show ?thesis using so1 r1 step Null by simp
  next
    case (StarP k)
    then have "st' = st1" using Suc.prems(4) step by simp
    then show ?thesis using so1 r1 step StarP by simp
  qed
qed

lemma insert_stars_sums_ok:
  assumes pos: "\<forall>s\<in>set ss. 0 < node_mass s"
  shows "\<forall>i\<in>set is. i < length ss \<Longrightarrow> tree_ok st \<Longrightarrow> sums_ok ss st m \<Longrightarrow>
         insert_stars fuel ss is st = Some st' \<Longrightarrow>
         sums_ok ss st' (stars_members fuel ss is st m) \<and>
         stars_members fuel ss is st m 0 = rev is @ m 0"
proof (induction "is" arbitrary: st m)
  case Nil
  then show ?case by simp
next
  case (Cons i "is")
  then obtain st1 where s1: "insert_star fuel ss i 0 st = Some st1"
    and rest: "insert_stars fuel ss is st1 = Some st'"
    by (auto split: option.splits)
  have i: "i < length ss" using Cons.prems(1) by simp
  have z: "0 < quad_count st" using Cons.prems(2) by (simp add: tree_ok_def)
  note ok1 = insert_star_tree_ok [OF Cons.prems(2) z s1]
  note so1 = insert_star_sums_ok [OF pos i Cons.prems(2,3) z s1]
  have "\<forall>i\<in>set is. i < length ss" using Cons.prems(1) by simp
  from Cons.IH [OF this ok1 _ rest, of "star_members fuel ss i 0 st m"] so1
  show ?case using s1 by simp
qed

lemma init_root_sums_ok: "sums_ok ss (init_root ss (\<lambda>_. zero_quad)) (\<lambda>_. [])"
  by (simp add: sums_ok_def init_root_def Let_def node_ok_def)

lemma sum_list_rev_upt:
  fixes f :: "'a \<Rightarrow> real"
  shows "(\<Sum>k\<leftarrow>rev [0 ..< length ss]. f (ss ! k)) = sum_list (map f ss)"
proof -
  have "(\<Sum>k\<leftarrow>rev [0 ..< length ss]. f (ss ! k)) = (\<Sum>k\<leftarrow>[0 ..< length ss]. f (ss ! k))"
    by (simp only: rev_map [symmetric] sum_list_rev)
  also have "\<dots> = sum_list (map f ss)"
    by (simp add: map_index)
  finally show ?thesis .
qed

lemma members_mass_pos:
  assumes "\<forall>s\<in>set ss. 0 < node_mass s" "\<forall>k\<in>set ms. k < length ss" "ms \<noteq> []"
  shows "0 < (\<Sum>k\<leftarrow>ms. node_mass (ss ! k))"
  using assms(2,3)
proof (induction ms)
  case Nil
  then show ?case by simp
next
  case (Cons k ms)
  have "0 < node_mass (ss ! k)" using assms(1) Cons.prems(1) by simp
  moreover have "0 \<le> (\<Sum>k\<leftarrow>ms. node_mass (ss ! k))"
    using members_mass_nonneg [OF assms(1), of ms] Cons.prems(1) by simp
  ultimately show ?case by simp
qed

lemma node_ok_mean:
  assumes pos: "\<forall>s\<in>set ss. 0 < node_mass s" and ok: "node_ok ss q ms"
  shows "quad_x q = (\<Sum>k\<leftarrow>ms. node_mass (ss ! k) * node_x (ss ! k)) / (\<Sum>k\<leftarrow>ms. node_mass (ss ! k))"
    and "quad_y q = (\<Sum>k\<leftarrow>ms. node_mass (ss ! k) * node_y (ss ! k)) / (\<Sum>k\<leftarrow>ms. node_mass (ss ! k))"
proof -
  have both: "quad_x q = (\<Sum>k\<leftarrow>ms. node_mass (ss ! k) * node_x (ss ! k)) / (\<Sum>k\<leftarrow>ms. node_mass (ss ! k)) \<and>
    quad_y q = (\<Sum>k\<leftarrow>ms. node_mass (ss ! k) * node_y (ss ! k)) / (\<Sum>k\<leftarrow>ms. node_mass (ss ! k))"
  proof (cases "ms = []")
    case True
    then show ?thesis using ok by (simp add: node_ok_def)
  next
    case False
    have "0 < (\<Sum>k\<leftarrow>ms. node_mass (ss ! k))"
      using pos ok False by (intro members_mass_pos) (simp_all add: node_ok_def)
    then have nz: "(\<Sum>k\<leftarrow>ms. node_mass (ss ! k)) \<noteq> 0" by simp
    have "quad_x q * (\<Sum>k\<leftarrow>ms. node_mass (ss ! k)) = (\<Sum>k\<leftarrow>ms. node_mass (ss ! k) * node_x (ss ! k))"
      "quad_y q * (\<Sum>k\<leftarrow>ms. node_mass (ss ! k)) = (\<Sum>k\<leftarrow>ms. node_mass (ss ! k) * node_y (ss ! k))"
      using ok by (simp_all add: node_ok_def)
    then show ?thesis using nz by (simp add: nonzero_eq_divide_eq)
  qed
  show "quad_x q = (\<Sum>k\<leftarrow>ms. node_mass (ss ! k) * node_x (ss ! k)) / (\<Sum>k\<leftarrow>ms. node_mass (ss ! k))"
    using both by simp
  show "quad_y q = (\<Sum>k\<leftarrow>ms. node_mass (ss ! k) * node_y (ss ! k)) / (\<Sum>k\<leftarrow>ms. node_mass (ss ! k))"
    using both by simp
qed

section \<open>The stars of a quad are the stars of its children\<close>

lemma get_quadrant_lt4: "get_quadrant q px py < 4"
  by (simp add: get_quadrant_def)

lemma kids_upd:
  assumes "\<forall>s<4. ch s \<noteq> QuadP j"
  shows "kids_members (m(j := v)) ch = kids_members m ch"
proof -
  have "ptr_members (m(j := v)) (ch s) = ptr_members m (ch s)" if "s < 4" for s
    using assms that by (cases "ch s") auto
  then show ?thesis unfolding kids_members_def by simp
qed

lemma kids_slot:
  assumes "qd < 4"
  shows "kids_members m (ch(qd := p)) + mset (ptr_members m (ch qd)) =
         kids_members m ch + mset (ptr_members m p)"
proof -
  have fin: "finite {..<4::nat}" "qd \<in> {..<4::nat}" using assms by simp_all
  have "kids_members m (ch(qd := p)) =
      mset (ptr_members m p) + (\<Sum>s\<in>{..<4} - {qd}. mset (ptr_members m ((ch(qd := p)) s)))"
    unfolding kids_members_def using sum.remove [OF fin, of "\<lambda>s. mset (ptr_members m ((ch(qd := p)) s))"]
    by simp
  also have "(\<Sum>s\<in>{..<4} - {qd}. mset (ptr_members m ((ch(qd := p)) s))) =
      (\<Sum>s\<in>{..<4} - {qd}. mset (ptr_members m (ch s)))"
    by (rule sum.cong) simp_all
  finally have 1: "kids_members m (ch(qd := p)) =
      mset (ptr_members m p) + (\<Sum>s\<in>{..<4} - {qd}. mset (ptr_members m (ch s)))" .
  have 2: "kids_members m ch =
      mset (ptr_members m (ch qd)) + (\<Sum>s\<in>{..<4} - {qd}. mset (ptr_members m (ch s)))"
    unfolding kids_members_def using sum.remove [OF fin, of "\<lambda>s. mset (ptr_members m (ch s))"] by simp
  show ?thesis unfolding 1 2 by (simp add: ac_simps)
qed

lemma kids_upd_one:
  assumes "s0 < 4" "ch s0 = QuadP j" "\<forall>s<4. s \<noteq> s0 \<longrightarrow> ch s \<noteq> QuadP j"
  shows "kids_members (m(j := i # m j)) ch = kids_members m ch + {#i#}"
proof -
  have fin: "finite {..<4::nat}" "s0 \<in> {..<4::nat}" using assms by simp_all
  let ?m' = "m(j := i # m j)"
  have other: "mset (ptr_members ?m' (ch s)) = mset (ptr_members m (ch s))" if "s \<in> {..<4} - {s0}" for s
    using assms(3) that by (cases "ch s") auto
  have "kids_members ?m' ch =
      mset (ptr_members ?m' (ch s0)) + (\<Sum>s\<in>{..<4} - {s0}. mset (ptr_members ?m' (ch s)))"
    unfolding kids_members_def using sum.remove [OF fin, of "\<lambda>s. mset (ptr_members ?m' (ch s))"] by simp
  also have "(\<Sum>s\<in>{..<4} - {s0}. mset (ptr_members ?m' (ch s))) =
      (\<Sum>s\<in>{..<4} - {s0}. mset (ptr_members m (ch s)))"
    using other by (rule sum.cong [OF refl])
  finally have 1: "kids_members ?m' ch =
      mset (ptr_members ?m' (ch s0)) + (\<Sum>s\<in>{..<4} - {s0}. mset (ptr_members m (ch s)))" .
  have 2: "kids_members m ch =
      mset (ptr_members m (ch s0)) + (\<Sum>s\<in>{..<4} - {s0}. mset (ptr_members m (ch s)))"
    unfolding kids_members_def using sum.remove [OF fin, of "\<lambda>s. mset (ptr_members m (ch s))"] by simp
  show ?thesis unfolding 1 2 by (simp add: assms(2))
qed

lemma dec_invD:
  assumes "dec_inv st m j i"
  shows "\<And>q. q < quad_count st \<Longrightarrow> quad_size (b_quads st q) \<noteq> 0"
    and "\<And>q s. q < quad_count st \<Longrightarrow> 4 \<le> s \<Longrightarrow> children (b_quads st q) s = Null"
    and "one_parent st"
    and "\<And>q. q < quad_count st \<Longrightarrow>
         mset (m q) = kids_members m (children (b_quads st q)) +
           (if \<exists>s. children (b_quads st q) s = QuadP j then {#i#} else {#})"
  using assms unfolding dec_inv_def by blast+

lemma dec_invI:
  assumes "\<And>q. q < quad_count st \<Longrightarrow> quad_size (b_quads st q) \<noteq> 0"
    and "\<And>q s. q < quad_count st \<Longrightarrow> 4 \<le> s \<Longrightarrow> children (b_quads st q) s = Null"
    and "one_parent st"
    and "\<And>q. q < quad_count st \<Longrightarrow>
         mset (m q) = kids_members m (children (b_quads st q)) +
           (if \<exists>s. children (b_quads st q) s = QuadP j then {#i#} else {#})"
  shows "dec_inv st m j i"
  using assms unfolding dec_inv_def by blast

lemma one_parentD:
  "one_parent st \<Longrightarrow> p < quad_count st \<Longrightarrow> p' < quad_count st \<Longrightarrow>
   children (b_quads st p) s = QuadP c \<Longrightarrow> children (b_quads st p') s' = QuadP c \<Longrightarrow> p = p' \<and> s = s'"
  unfolding one_parent_def by blast

lemma dec_other:
  assumes dec: "dec_inv st m j i" and q: "q < quad_count st"
  shows "mset (m q) = kids_members (m(j := i # m j)) (children (b_quads st q))"
proof (cases "\<exists>s. children (b_quads st q) s = QuadP j")
  case True
  then obtain s0 where s0: "children (b_quads st q) s0 = QuadP j" ..
  have lt: "s0 < 4"
  proof (rule ccontr)
    assume "\<not> s0 < 4"
    then have "children (b_quads st q) s0 = Null" using dec_invD(2) [OF dec q] by simp
    then show False using s0 by simp
  qed
  have uniq: "\<forall>s<4. s \<noteq> s0 \<longrightarrow> children (b_quads st q) s \<noteq> QuadP j"
    using one_parentD [OF dec_invD(3) [OF dec] q q _ s0] by blast
  show ?thesis
    using dec_invD(4) [OF dec q] True kids_upd_one [OF lt s0 uniq, of m i] by simp
next
  case False
  then have "\<forall>s<4. children (b_quads st q) s \<noteq> QuadP j" by blast
  from kids_upd [OF this, of m] show ?thesis
    using dec_invD(4) [OF dec q] False by simp
qed

lemma no_self_child:
  assumes "tree_ok st" "q < quad_count st"
  shows "\<forall>s<4. children (b_quads st q) s \<noteq> QuadP q"
  using tree_okD(3) [OF assms] by blast

lemma no_fresh_child:
  assumes "tree_ok st" "q < quad_count st"
  shows "\<forall>s<4. children (b_quads st q) s \<noteq> QuadP (quad_count st)"
  using tree_okD(3) [OF assms] by (metis less_irrefl)

lemma no_root_child:
  assumes "tree_ok st" "q < quad_count st"
  shows "\<not> (\<exists>s. children (b_quads st q) s = QuadP 0)"
  using tree_okD(3) [OF assms] by (metis less_irrefl)

lemma dec_inv_empty:
  assumes ok: "tree_ok st" and dec: "dec_inv st m j i" and j: "j < quad_count st"
    and qd: "qd < 4" and c: "children (b_quads st j) qd = Null"
    and st': "st' = st\<lparr>b_quads := (b_quads st)(j := set_child (add_star s (b_quads st j)) qd (StarP i))\<rparr>"
    and ok': "tree_ok st'"
  shows "dec_inv st' (m(j := i # m j)) 0 i'"
proof (rule dec_invI)
  let ?m1 = "m(j := i # m j)"
  have n: "quad_count st' = quad_count st" by (simp add: st')
  have chj: "children (b_quads st' j) = (children (b_quads st j))(qd := StarP i)" by (simp add: st')
  have cho: "b_quads st' q = b_quads st q" if "q \<noteq> j" for q using that by (simp add: st')
  show "quad_size (b_quads st' q) \<noteq> 0" if "q < quad_count st'" for q
    using dec_invD(1) [OF dec, of q] that by (cases "q = j") (simp_all add: st')
  show "children (b_quads st' q) s = Null" if "q < quad_count st'" "4 \<le> s" for q s
    using dec_invD(2) [OF dec, of q s] that qd by (cases "q = j") (simp_all add: st')
  show "one_parent st'"
    unfolding one_parent_def
  proof (intro allI impI)
    fix p p' s s' c'
    assume a: "p < quad_count st' \<and> p' < quad_count st' \<and>
        children (b_quads st' p) s = QuadP c' \<and> children (b_quads st' p') s' = QuadP c'"
    have "children (b_quads st p) s = QuadP c'"
      using a by (cases "p = j") (simp_all add: st' split: if_splits)
    moreover have "children (b_quads st p') s' = QuadP c'"
      using a by (cases "p' = j") (simp_all add: st' split: if_splits)
    ultimately show "p = p' \<and> s = s'"
      using one_parentD [OF dec_invD(3) [OF dec], of p p' s c' s'] a n by simp
  qed
  show "mset (?m1 q) = kids_members ?m1 (children (b_quads st' q)) +
           (if \<exists>s. children (b_quads st' q) s = QuadP 0 then {#i'#} else {#})"
    if q: "q < quad_count st'" for q
  proof -
    have q': "q < quad_count st" using q n by simp
    have nr: "\<not> (\<exists>s. children (b_quads st' q) s = QuadP 0)"
      using no_root_child [OF ok' q] .
    show ?thesis
    proof (cases "q = j")
      case True
      have "kids_members ?m1 (children (b_quads st' j)) + mset (ptr_members ?m1 (children (b_quads st j) qd))
          = kids_members ?m1 (children (b_quads st j)) + mset (ptr_members ?m1 (StarP i))"
        unfolding chj by (rule kids_slot [OF qd])
      then have "kids_members ?m1 (children (b_quads st' j)) =
          kids_members ?m1 (children (b_quads st j)) + {#i#}"
        by (simp add: c)
      then show ?thesis using dec_other [OF dec j] nr True by simp
    next
      case False
      then show ?thesis using dec_other [OF dec q'] nr cho by simp
    qed
  qed
qed

lemma dec_inv_descend:
  assumes ok: "tree_ok st" and dec: "dec_inv st m j i" and j: "j < quad_count st"
    and c: "children (b_quads st j) qd = QuadP c"
    and st': "st' = st\<lparr>b_quads := (b_quads st)(j := add_star s (b_quads st j))\<rparr>"
  shows "dec_inv st' (m(j := i # m j)) c i"
proof (rule dec_invI)
  let ?m1 = "m(j := i # m j)"
  have n: "quad_count st' = quad_count st" by (simp add: st')
  have ch: "children (b_quads st' q) = children (b_quads st q)" for q
    by (cases "q = j") (simp_all add: st')
  show "quad_size (b_quads st' q) \<noteq> 0" if "q < quad_count st'" for q
    using dec_invD(1) [OF dec, of q] that by (cases "q = j") (simp_all add: st')
  show "children (b_quads st' q) s = Null" if "q < quad_count st'" "4 \<le> s" for q s
    using dec_invD(2) [OF dec, of q s] that by (simp add: ch n)
  show "one_parent st'"
    using dec_invD(3) [OF dec] unfolding one_parent_def ch n .
  show "mset (?m1 q) = kids_members ?m1 (children (b_quads st' q)) +
           (if \<exists>s. children (b_quads st' q) s = QuadP c then {#i#} else {#})"
    if q: "q < quad_count st'" for q
  proof -
    have q': "q < quad_count st" using q n by simp
    show ?thesis
    proof (cases "q = j")
      case True
      then show ?thesis using dec_other [OF dec j] c by (auto simp: ch)
    next
      case False
      have "\<not> (\<exists>s. children (b_quads st q) s = QuadP c)"
        using one_parentD [OF dec_invD(3) [OF dec] q' j _ c] False by blast
      then show ?thesis using dec_other [OF dec q'] False by (simp add: ch)
    qed
  qed
qed

lemma kids_members_empty [simp]: "kids_members m (\<lambda>_. Null) = {#}"
  by (simp add: kids_members_def)

lemma kids_members_leaf:
  assumes "k0 < 4"
  shows "kids_members m ((\<lambda>_. Null)(k0 := StarP k)) = {#k#}"
  using kids_slot [OF assms, of m "\<lambda>_. Null" "StarP k"] by simp

lemma dec_inv_split:
  assumes ok: "tree_ok st" and dec: "dec_inv st m j i" and j: "j < quad_count st"
    and qd: "qd < 4" and c: "children (b_quads st j) qd = StarP k"
    and nq: "nq = make_quad ss qs1 (add_star s (b_quads st j)) qd (StarP k) (b_quads st (quad_count st))"
    and st': "st' = \<lparr>b_quads = (b_quads st)(quad_count st := nq,
            j := set_child (add_star s (b_quads st j)) qd (QuadP (quad_count st))),
          quad_count = quad_count st + 1\<rparr>"
  shows "dec_inv st' ((m(j := i # m j))(quad_count st := [k])) (quad_count st) i"
proof (rule dec_invI)
  define n where "n = quad_count st"
  let ?m1 = "m(j := i # m j)"
  let ?m' = "?m1(n := [k])"
  note D = tree_okD [OF ok]
  have jn: "j \<noteq> n" "j < n" using j by (simp_all add: n_def)
  have zn: "b_quads st n = zero_quad" using D(2) [of n] by (simp add: n_def)
  have cnt: "quad_count st' = Suc n" by (simp add: st' n_def)
  have qn: "b_quads st' n = nq" using jn by (simp add: st' n_def)
  have qj: "b_quads st' j = set_child (add_star s (b_quads st j)) qd (QuadP n)" by (simp add: st' n_def)
  have qo: "b_quads st' q = b_quads st q" if "q \<noteq> j" "q \<noteq> n" for q using that by (simp add: st' n_def)
  obtain k0 where k0: "k0 < 4" "children nq = (\<lambda>_. Null)(k0 := StarP k)"
  proof
    show "get_quadrant nq (ptr_x ss qs1 (StarP k)) (ptr_y ss qs1 (StarP k)) < 4" by (rule get_quadrant_lt4)
    show "children nq = (\<lambda>_. Null)(get_quadrant nq (ptr_x ss qs1 (StarP k)) (ptr_y ss qs1 (StarP k)) := StarP k)"
      unfolding nq n_def [symmetric] zn by (simp add: make_quad_def Let_def get_quadrant_def)
  qed
  have nqs: "quad_size nq = quad_size (b_quads st j) / 2" by (simp add: nq)
  have cases3: "q = j \<or> q = n \<or> (q \<noteq> j \<and> q < n)" if "q < quad_count st'" for q
    using that cnt less_Suc_eq by auto
  have old_ptr: "c' < n" if "q < n" "children (b_quads st q) s' = QuadP c'" for q s' c'
    using D(3) [of q s' c'] that by (simp add: n_def)
  \<comment> \<open>the quad pointers of the new state\<close>
  have ptr': "(p = j \<and> s' = qd \<and> c' = n) \<or> (p < n \<and> c' < n \<and> children (b_quads st p) s' = QuadP c')"
    if "p < quad_count st'" "children (b_quads st' p) s' = QuadP c'" for p s' c'
  proof -
    from cases3 [OF that(1)] show ?thesis
    proof (elim disjE conjE)
      assume "p = j"
      then show ?thesis using that(2) old_ptr [of j s' c'] jn by (auto simp: qj split: if_splits)
    next
      assume "p = n"
      then show ?thesis using that(2) by (simp add: qn k0 split: if_splits)
    next
      assume "p \<noteq> j" "p < n"
      then show ?thesis using that(2) old_ptr [of p s' c'] by (simp add: qo)
    qed
  qed
  show "quad_size (b_quads st' q) \<noteq> 0" if "q < quad_count st'" for q
    using cases3 [OF that]
  proof (elim disjE conjE)
    assume "q = j"
    then show ?thesis using dec_invD(1) [OF dec j] by (simp add: qj)
  next
    assume "q = n"
    then show ?thesis using dec_invD(1) [OF dec j] nqs by (simp add: qn)
  next
    assume "q \<noteq> j" "q < n"
    then show ?thesis using dec_invD(1) [OF dec, of q] by (simp add: qo n_def)
  qed
  show "children (b_quads st' q) s' = Null" if "q < quad_count st'" "4 \<le> s'" for q s'
    using cases3 [OF that(1)]
  proof (elim disjE conjE)
    assume "q = j"
    then show ?thesis using dec_invD(2) [OF dec j that(2)] qd that(2) by (simp add: qj)
  next
    assume "q = n"
    then show ?thesis using k0 that(2) by (simp add: qn)
  next
    assume "q \<noteq> j" "q < n"
    then show ?thesis using dec_invD(2) [OF dec _ that(2), of q] by (simp add: qo n_def)
  qed
  show "one_parent st'"
    unfolding one_parent_def
  proof (intro allI impI)
    fix p p' s1 s2 c'
    assume a: "p < quad_count st' \<and> p' < quad_count st' \<and>
        children (b_quads st' p) s1 = QuadP c' \<and> children (b_quads st' p') s2 = QuadP c'"
    from ptr' [of p s1 c'] ptr' [of p' s2 c'] a
    consider "p = j" "s1 = qd" "c' = n" "p' = j" "s2 = qd"
      | "p < n" "p' < n" "children (b_quads st p) s1 = QuadP c'" "children (b_quads st p') s2 = QuadP c'"
      by auto
    then show "p = p' \<and> s1 = s2"
    proof cases
      case 1
      then show ?thesis by simp
    next
      case 2
      then show ?thesis using one_parentD [OF dec_invD(3) [OF dec], of p p' s1 c' s2] by (simp add: n_def)
    qed
  qed
  show "mset (((m(j := i # m j))(quad_count st := [k])) q) =
          kids_members ((m(j := i # m j))(quad_count st := [k])) (children (b_quads st' q)) +
           (if \<exists>s. children (b_quads st' q) s = QuadP (quad_count st) then {#i#} else {#})"
    if q: "q < quad_count st'" for q
  proof -
    have goal: "mset (?m' q) = kids_members ?m' (children (b_quads st' q)) +
           (if \<exists>s. children (b_quads st' q) s = QuadP n then {#i#} else {#})"
      using cases3 [OF q]
    proof (elim disjE conjE)
      assume qj': "q = j"
      have nf: "\<forall>s<4. children (b_quads st j) s \<noteq> QuadP n"
        using no_fresh_child [OF ok j] by (simp add: n_def)
      have "kids_members ?m' (children (b_quads st' j)) + mset (ptr_members ?m' (children (b_quads st j) qd))
          = kids_members ?m' (children (b_quads st j)) + mset (ptr_members ?m' (QuadP n))"
        using kids_slot [OF qd, of ?m' "children (b_quads st j)" "QuadP n"] by (simp add: qj)
      then have "kids_members ?m' (children (b_quads st' j)) = kids_members ?m' (children (b_quads st j))"
        by (simp add: c)
      also have "\<dots> = kids_members ?m1 (children (b_quads st j))"
        using nf by (rule kids_upd)
      finally have "kids_members ?m' (children (b_quads st' j)) = mset (m j)"
        using dec_other [OF dec j] by simp
      moreover have "\<exists>s. children (b_quads st' j) s = QuadP n" by (auto simp: qj)
      ultimately show ?thesis using qj' jn by simp
    next
      assume "q = n"
      then show ?thesis using jn by (simp add: qn k0 kids_members_leaf)
    next
      assume qo': "q \<noteq> j" "q < n"
      then have q': "q < quad_count st" by (simp add: n_def)
      have nf: "\<forall>s<4. children (b_quads st q) s \<noteq> QuadP n"
        using no_fresh_child [OF ok q'] by (simp add: n_def)
      have "\<not> (\<exists>s. children (b_quads st q) s = QuadP n)"
        using old_ptr [OF qo'(2)] by blast
      moreover have "kids_members ?m' (children (b_quads st q)) = kids_members ?m1 (children (b_quads st q))"
        using nf by (rule kids_upd)
      ultimately show ?thesis using dec_other [OF dec q'] qo' by (simp add: qo)
    qed
    then show ?thesis by (simp add: n_def)
  qed
qed

lemma insert_step_dec:
  assumes ok: "tree_ok st" and dec: "dec_inv st m j i" and j: "j < quad_count st"
    and step: "insert_step ss i j st = (st', p)"
  shows "((\<exists>k. p = StarP k) \<and> (\<forall>i'. dec_inv st' (step_members ss i j st m) 0 i')) \<or>
         (\<exists>c. p = QuadP c \<and> dec_inv st' (step_members ss i j st m) c i)"
proof -
  define qd where "qd = get_quadrant (b_quads st j) (node_x (ss ! i)) (node_y (ss ! i))"
  define c where "c = children (b_quads st j) qd"
  note D = tree_okD [OF ok]
  have qd4: "qd < 4" unfolding qd_def by (rule get_quadrant_lt4)
  note ok' = insert_step_tree_ok [OF ok j step]
  consider (empty) "c = Null" | (split) "c \<noteq> Null" "ptr_size (b_quads st) c = 0"
    | (descend) "c \<noteq> Null" "ptr_size (b_quads st) c \<noteq> 0"
    by blast
  then show ?thesis
  proof cases
    case empty
    from insert_step_empty [of st j ss i] empty step
    have eq: "st' = st\<lparr>b_quads := (b_quads st)(j := set_child (add_star (ss ! i) (b_quads st j)) qd (StarP i))\<rparr>"
      and p: "p = StarP i"
      unfolding c_def qd_def by simp_all
    have me: "step_members ss i j st m = m(j := i # m j)"
      using empty by (simp add: step_members_def c_def qd_def Let_def)
    have "dec_inv st' (m(j := i # m j)) 0 i'" for i'
      using ok dec j qd4 empty [unfolded c_def] eq by (rule dec_inv_empty) (use ok' in simp)
    then show ?thesis by (simp add: p me)
  next
    case descend
    from insert_step_descend [of st j ss i c] descend step
    have eq: "st' = st\<lparr>b_quads := (b_quads st)(j := add_star (ss ! i) (b_quads st j))\<rparr>"
      and p: "p = c"
      unfolding c_def qd_def by simp_all
    have me: "step_members ss i j st m = m(j := i # m j)"
      using descend by (simp add: step_members_def c_def [symmetric] qd_def [symmetric] Let_def)
    obtain c' where c': "c = QuadP c'" using descend by (cases c) simp_all
    have "dec_inv st' (m(j := i # m j)) c' i"
      using ok dec j c' [unfolded c_def] eq by (rule dec_inv_descend)
    then show ?thesis by (simp add: p me c')
  next
    case split
    have jn: "j \<noteq> quad_count st" using j by simp
    from insert_step_split [of st j ss i c] split step jn
    have eq: "st' = \<lparr>b_quads = (b_quads st)
         (quad_count st := make_quad ss ((b_quads st)(j := add_star (ss ! i) (b_quads st j)))
              (add_star (ss ! i) (b_quads st j)) qd c (b_quads st (quad_count st)),
          j := set_child (add_star (ss ! i) (b_quads st j)) qd (QuadP (quad_count st))),
       quad_count = quad_count st + 1\<rparr>"
      and p: "p = QuadP (quad_count st)"
      unfolding c_def qd_def by simp_all
    obtain k where k: "c = StarP k"
    proof (cases c)
      case Null
      then show ?thesis using split(1) by simp
    next
      case (StarP k)
      then show ?thesis using that by simp
    next
      case (QuadP c')
      have "quad_size (b_quads st j) \<noteq> 0" using dec_invD(1) [OF dec j] .
      then have "quad_size (b_quads st c') \<noteq> 0"
        using D(3) [OF j, of qd c'] QuadP by (simp add: c_def)
      then show ?thesis using split(2) QuadP by simp
    qed
    have me: "step_members ss i j st m = (m(j := i # m j))(quad_count st := [k])"
      using split k by (simp add: step_members_def c_def [symmetric] qd_def [symmetric] Let_def)
    have "dec_inv st' ((m(j := i # m j))(quad_count st := [k])) (quad_count st) i"
      using ok dec j qd4 k [unfolded c_def] refl eq [unfolded k] by (rule dec_inv_split)
    then show ?thesis by (simp add: p me)
  qed
qed

lemma insert_star_dec:
  "tree_ok st \<Longrightarrow> dec_inv st m j i \<Longrightarrow> j < quad_count st \<Longrightarrow>
   insert_star fuel ss i j st = Some st' \<Longrightarrow>
   \<forall>i'. dec_inv st' (star_members fuel ss i j st m) 0 i'"
proof (induction fuel arbitrary: j st m)
  case 0
  then show ?case by simp
next
  case (Suc fuel)
  obtain st1 p where step: "insert_step ss i j st = (st1, p)" by (cases "insert_step ss i j st")
  note ok1 = insert_step_tree_ok [OF Suc.prems(1,3) step]
  from insert_step_dec [OF Suc.prems(1,2,3) step]
  show ?case
  proof
    assume a: "(\<exists>k. p = StarP k) \<and> (\<forall>i'. dec_inv st1 (step_members ss i j st m) 0 i')"
    then have "st' = st1" using Suc.prems(4) step by auto
    then show ?thesis using a step by auto
  next
    assume "\<exists>c. p = QuadP c \<and> dec_inv st1 (step_members ss i j st m) c i"
    then obtain c where c: "p = QuadP c" "dec_inv st1 (step_members ss i j st m) c i" by blast
    have cl: "c < quad_count st1" using ok1 c(1) by simp
    have nz: "quad_size (b_quads st1 c) \<noteq> 0" using dec_invD(1) [OF c(2) cl] .
    then have run: "insert_star fuel ss i c st1 = Some st'"
      using Suc.prems(4) step c(1) by simp
    from Suc.IH [OF _ c(2) cl run] ok1 show ?thesis using step c(1) nz by simp
  qed
qed

lemma insert_stars_dec:
  "tree_ok st \<Longrightarrow> \<forall>i'. dec_inv st m 0 i' \<Longrightarrow> insert_stars fuel ss is st = Some st' \<Longrightarrow>
   \<forall>i'. dec_inv st' (stars_members fuel ss is st m) 0 i'"
proof (induction "is" arbitrary: st m)
  case Nil
  then show ?case by simp
next
  case (Cons i "is")
  then obtain st1 where s1: "insert_star fuel ss i 0 st = Some st1"
    and rest: "insert_stars fuel ss is st1 = Some st'"
    by (auto split: option.splits)
  have z: "0 < quad_count st" using Cons.prems(1) by (rule tree_okD(1))
  note ok1 = insert_star_tree_ok [OF Cons.prems(1) z s1]
  have d0: "dec_inv st m 0 i" using Cons.prems(2) by blast
  note d1 = insert_star_dec [OF Cons.prems(1) d0 z s1]
  from Cons.IH [OF ok1 d1 rest] show ?case using s1 by simp
qed

lemma init_root_dec:
  assumes "quad_size (b_quads (init_root ss (\<lambda>_. zero_quad)) 0) \<noteq> 0"
  shows "dec_inv (init_root ss (\<lambda>_. zero_quad)) (\<lambda>_. []) 0 i'"
proof (rule dec_invI)
  let ?st = "init_root ss (\<lambda>_. zero_quad)"
  have n: "quad_count ?st = 1" by (simp add: init_root_def Let_def)
  have ch: "children (b_quads ?st q) = (\<lambda>_. Null)" for q
    by (simp add: init_root_def Let_def)
  show "quad_size (b_quads ?st q) \<noteq> 0" if "q < quad_count ?st" for q
    using that assms n by simp
  show "children (b_quads ?st q) s = Null" if "q < quad_count ?st" "4 \<le> s" for q s
    by (simp add: ch)
  show "one_parent ?st" by (simp add: one_parent_def ch)
  show "mset [] = kids_members (\<lambda>_. []) (children (b_quads ?st q)) +
      (if \<exists>s. children (b_quads ?st q) s = QuadP 0 then {#i'#} else {#})"
    if "q < quad_count ?st" for q
    by (simp add: ch)
qed

lemma members_split:
  assumes root: "quad_size (b_quads (init_root ss (\<lambda>_. zero_quad)) 0) \<noteq> 0"
    and build: "build_tree fuel ss (\<lambda>_. zero_quad) = Some b"
    and j: "j < quad_count b"
  shows "mset (tree_members fuel ss (\<lambda>_. zero_quad) j) =
         (\<Sum>s<4. mset (ptr_members (tree_members fuel ss (\<lambda>_. zero_quad)) (children (b_quads b j) s)))"
proof -
  have run: "insert_stars fuel ss [0 ..< length ss] (init_root ss (\<lambda>_. zero_quad)) = Some b"
    using build by (simp add: build_tree_def)
  have d0: "\<forall>i'. dec_inv (init_root ss (\<lambda>_. zero_quad)) (\<lambda>_. []) 0 i'"
    using init_root_dec [OF root] by blast
  from insert_stars_dec [OF init_root_tree_ok d0 run]
  have dec: "dec_inv b (tree_members fuel ss (\<lambda>_. zero_quad)) 0 0"
    by (simp add: tree_members_def)
  have "\<not> (\<exists>s. children (b_quads b j) s = QuadP 0)"
    using no_root_child [OF build_tree_ok [OF build] j] .
  then show ?thesis
    using dec_invD(4) [OF dec j] by (simp add: kids_members_def)
qed

section \<open>The build keeps the squares\<close>

lemma get_quadrant_bit0: "bit (get_quadrant q px py) 0 = (px > center_x q)"
  by (simp add: get_quadrant_def bit_iff_odd)

lemma get_quadrant_bit1: "bit (get_quadrant q px py) 1 = (py > center_y q)"
  by (simp add: get_quadrant_def bit_iff_odd)

lemma half_line:
  fixes p c s :: real
  assumes "\<bar>p - c\<bar> \<le> s / 2"
  shows "\<bar>p - (c + (if p > c then s / 4 else - (s / 4)))\<bar> \<le> s / 2 / 2"
  using assms by (auto simp: abs_le_iff field_simps)

lemma same_side_close:
  fixes p p' c s :: real
  assumes "\<bar>p - c\<bar> \<le> s / 2" "\<bar>p' - c\<bar> \<le> s / 2" "(p > c) = (p' > c)"
  shows "\<bar>p - p'\<bar> \<le> s / 2"
  using assms unfolding abs_le_iff by auto

lemma child_square:
  assumes "in_square q px py" and "child_geo q (get_quadrant q px py) ch"
  shows "in_square ch px py"
  using assms half_line [of px "center_x q" "quad_size q"] half_line [of py "center_y q" "quad_size q"]
  unfolding in_square_def child_geo_def get_quadrant_bit0 get_quadrant_bit1
  by simp

lemma same_quadrant_close:
  assumes "in_square q px py" "in_square q px' py'"
    and "get_quadrant q px py = get_quadrant q px' py'"
  shows "\<bar>px - px'\<bar> \<le> quad_size q / 2 \<and> \<bar>py - py'\<bar> \<le> quad_size q / 2"
proof -
  have "(px > center_x q) = (px' > center_x q)"
    using assms(3) get_quadrant_bit0 [of q px py] get_quadrant_bit0 [of q px' py'] by simp
  moreover have "(py > center_y q) = (py' > center_y q)"
    using assms(3) get_quadrant_bit1 [of q px py] get_quadrant_bit1 [of q px' py'] by simp
  ultimately show ?thesis
    using assms(1,2) same_side_close unfolding in_square_def by blast
qed

lemma same_frame_refl [simp]: "same_frame q q"
  by (simp add: same_frame_def)

lemma same_frame_add_star [simp]: "same_frame (add_star s q) q"
  by (simp add: same_frame_def)

lemma same_frame_set_child [simp]: "same_frame (set_child q k p) q' = same_frame q q'"
  by (simp add: same_frame_def)

lemma same_frame_in_square: "same_frame q q' \<Longrightarrow> in_square q = in_square q'"
  by (simp add: same_frame_def in_square_def fun_eq_iff)

lemma same_frame_get_quadrant: "same_frame q q' \<Longrightarrow> get_quadrant q = get_quadrant q'"
  by (simp add: same_frame_def get_quadrant_def fun_eq_iff)

lemma same_frame_child_geo:
  "same_frame p p' \<Longrightarrow> same_frame c c' \<Longrightarrow> child_geo p slot c = child_geo p' slot c'"
  by (simp add: same_frame_def child_geo_def)

lemma quad_geo_mono: "quad_geo ss d t qs a \<Longrightarrow> t \<le> t' \<Longrightarrow> quad_geo ss d t' qs a"
  unfolding quad_geo_def by (meson less_le_trans)

lemma quad_geo_keep:
  assumes g: "quad_geo ss d t qs a"
    and fa: "same_frame (qs' a) (qs a)"
    and ch: "children (qs' a) = children (qs a)"
    and fc: "\<And>slot c. children (qs a) slot = QuadP c \<Longrightarrow> same_frame (qs' c) (qs c)"
  shows "quad_geo ss d t qs' a"
proof -
  have sz: "quad_size (qs' a) = quad_size (qs a)" using fa by (simp add: same_frame_def)
  have sq: "in_square (qs' a) = in_square (qs a)" using fa by (rule same_frame_in_square)
  have gq: "get_quadrant (qs' a) = get_quadrant (qs a)" using fa by (rule same_frame_get_quadrant)
  have cg: "child_geo (qs' a) slot (qs' c)" if "children (qs a) slot = QuadP c" for slot c
  proof -
    have "child_geo (qs a) slot (qs c)" using g that by (simp add: quad_geo_def)
    then show ?thesis using same_frame_child_geo [OF fa fc [OF that], of slot] by simp
  qed
  show ?thesis
    using g cg unfolding quad_geo_def sz sq gq ch by blast
qed

lemma quad_geo_leaf:
  assumes g: "quad_geo ss d t qs a"
    and fa: "same_frame (qs' a) (qs a)"
    and ch: "children (qs' a) = (children (qs a))(tgt := StarP k)"
    and fc: "\<And>slot c. children (qs a) slot = QuadP c \<Longrightarrow> same_frame (qs' c) (qs c)"
    and k: "k < t" "in_square (qs a) (node_x (ss ! k)) (node_y (ss ! k))"
      "get_quadrant (qs a) (node_x (ss ! k)) (node_y (ss ! k)) = tgt"
  shows "quad_geo ss d t qs' a"
proof -
  have sz: "quad_size (qs' a) = quad_size (qs a)" using fa by (simp add: same_frame_def)
  have sq: "in_square (qs' a) = in_square (qs a)" using fa by (rule same_frame_in_square)
  have gq: "get_quadrant (qs' a) = get_quadrant (qs a)" using fa by (rule same_frame_get_quadrant)
  have cg: "child_geo (qs' a) slot (qs' c)" if "children (qs a) slot = QuadP c" for slot c
  proof -
    have "child_geo (qs a) slot (qs c)" using g that by (simp add: quad_geo_def)
    then show ?thesis using same_frame_child_geo [OF fa fc [OF that], of slot] by simp
  qed
  have 1: "a \<noteq> 0 \<longrightarrow> d \<le> quad_size (qs' a)" using g by (simp add: quad_geo_def sz)
  have 2: "child_geo (qs' a) slot (qs' c)" if "children (qs' a) slot = QuadP c" for slot c
    using that cg [of slot c] by (simp add: ch split: if_splits)
  have 3: "k' < t \<and> in_square (qs' a) (node_x (ss ! k')) (node_y (ss ! k')) \<and>
         get_quadrant (qs' a) (node_x (ss ! k')) (node_y (ss ! k')) = slot"
    if "children (qs' a) slot = StarP k'" for slot k'
  proof (cases "slot = tgt")
    case True
    then have "k' = k" using that by (simp add: ch)
    then show ?thesis using k True by (simp add: sq gq)
  next
    case False
    then have "children (qs a) slot = StarP k'" using that by (simp add: ch)
    then show ?thesis using g by (simp add: quad_geo_def sq gq)
  qed
  show ?thesis unfolding quad_geo_def using 1 2 3 by blast
qed

lemma quad_geo_quad:
  assumes g: "quad_geo ss d t qs a"
    and fa: "same_frame (qs' a) (qs a)"
    and ch: "children (qs' a) = (children (qs a))(tgt := QuadP n)"
    and fc: "\<And>slot c. children (qs a) slot = QuadP c \<Longrightarrow> same_frame (qs' c) (qs c)"
    and n: "child_geo (qs a) tgt (qs' n)"
  shows "quad_geo ss d t qs' a"
proof -
  have sz: "quad_size (qs' a) = quad_size (qs a)" using fa by (simp add: same_frame_def)
  have sq: "in_square (qs' a) = in_square (qs a)" using fa by (rule same_frame_in_square)
  have gq: "get_quadrant (qs' a) = get_quadrant (qs a)" using fa by (rule same_frame_get_quadrant)
  have cg: "child_geo (qs' a) slot (qs' c)" if "children (qs a) slot = QuadP c" for slot c
  proof -
    have "child_geo (qs a) slot (qs c)" using g that by (simp add: quad_geo_def)
    then show ?thesis using same_frame_child_geo [OF fa fc [OF that], of slot] by simp
  qed
  have 1: "a \<noteq> 0 \<longrightarrow> d \<le> quad_size (qs' a)" using g by (simp add: quad_geo_def sz)
  have 2: "child_geo (qs' a) slot (qs' c)" if "children (qs' a) slot = QuadP c" for slot c
  proof (cases "slot = tgt")
    case True
    then have "c = n" using that by (simp add: ch)
    then show ?thesis using n True same_frame_child_geo [OF fa same_frame_refl, of tgt "qs' n"] by simp
  next
    case False
    then show ?thesis using that cg [of slot c] by (simp add: ch)
  qed
  have 3: "k' < t \<and> in_square (qs' a) (node_x (ss ! k')) (node_y (ss ! k')) \<and>
         get_quadrant (qs' a) (node_x (ss ! k')) (node_y (ss ! k')) = slot"
    if "children (qs' a) slot = StarP k'" for slot k'
  proof -
    have "children (qs a) slot = StarP k'" using that by (simp add: ch split: if_splits)
    then show ?thesis using g by (simp add: quad_geo_def sq gq)
  qed
  show ?thesis unfolding quad_geo_def using 1 2 3 by blast
qed

lemma geo_okD:
  assumes "geo_ok ss d t st"
  shows "\<And>i. i < length ss \<Longrightarrow> in_square (b_quads st 0) (node_x (ss ! i)) (node_y (ss ! i))"
    and "\<And>a. a < quad_count st \<Longrightarrow> quad_geo ss d t (b_quads st) a"
  using assms unfolding geo_ok_def by blast+

lemma geo_okI:
  assumes "\<And>i. i < length ss \<Longrightarrow> in_square (b_quads st 0) (node_x (ss ! i)) (node_y (ss ! i))"
    and "\<And>a. a < quad_count st \<Longrightarrow> quad_geo ss d t (b_quads st) a"
  shows "geo_ok ss d t st"
  using assms unfolding geo_ok_def by blast

lemma quad_geoD:
  assumes "quad_geo ss d t qs a"
  shows "a \<noteq> 0 \<Longrightarrow> d \<le> quad_size (qs a)"
    and "\<And>slot c. children (qs a) slot = QuadP c \<Longrightarrow> child_geo (qs a) slot (qs c)"
    and "\<And>slot k. children (qs a) slot = StarP k \<Longrightarrow>
         k < t \<and> in_square (qs a) (node_x (ss ! k)) (node_y (ss ! k)) \<and>
         get_quadrant (qs a) (node_x (ss ! k)) (node_y (ss ! k)) = slot"
  using assms unfolding quad_geo_def by blast+

lemma geo_ok_empty:
  assumes ok: "tree_ok st" and geo: "geo_ok ss d i st" and j: "j < quad_count st"
    and sq: "in_square (b_quads st j) (node_x (ss ! i)) (node_y (ss ! i))"
    and qd: "qd = get_quadrant (b_quads st j) (node_x (ss ! i)) (node_y (ss ! i))"
  shows "geo_ok ss d (Suc i)
     (st\<lparr>b_quads := (b_quads st)(j := set_child (add_star (ss ! i) (b_quads st j)) qd (StarP i))\<rparr>)"
proof (rule geo_okI)
  let ?qs = "b_quads st"
  let ?qs' = "(b_quads st)(j := set_child (add_star (ss ! i) (b_quads st j)) qd (StarP i))"
  let ?st' = "st\<lparr>b_quads := ?qs'\<rparr>"
  have fr: "same_frame (?qs' b) (?qs b)" for b by simp
  show "in_square (b_quads ?st' 0) (node_x (ss ! k)) (node_y (ss ! k))" if "k < length ss" for k
    using geo_okD(1) [OF geo that] same_frame_in_square [OF fr [of 0]] by simp
  show "quad_geo ss d (Suc i) (b_quads ?st') a" if a: "a < quad_count ?st'" for a
  proof -
    have a': "a < quad_count st" using a by simp
    have g: "quad_geo ss d (Suc i) ?qs a"
      using geo_okD(2) [OF geo a'] by (rule quad_geo_mono) simp
    show ?thesis
    proof (cases "a = j")
      case True
      have "quad_geo ss d (Suc i) ?qs' j"
      proof (rule quad_geo_leaf [where tgt = qd and k = i])
        show "quad_geo ss d (Suc i) ?qs j" using g True by simp
        show "same_frame (?qs' j) (?qs j)" by (rule fr)
        show "children (?qs' j) = (children (?qs j))(qd := StarP i)" by simp
        show "same_frame (?qs' c) (?qs c)" for c by (rule fr)
        show "i < Suc i" by simp
        show "in_square (?qs j) (node_x (ss ! i)) (node_y (ss ! i))" by (rule sq)
        show "get_quadrant (?qs j) (node_x (ss ! i)) (node_y (ss ! i)) = qd" by (simp add: qd)
      qed
      then show ?thesis using True by simp
    next
      case False
      have "quad_geo ss d (Suc i) ?qs' a"
      proof (rule quad_geo_keep [OF g])
        show "same_frame (?qs' a) (?qs a)" by (rule fr)
        show "children (?qs' a) = children (?qs a)" using False by simp
        show "same_frame (?qs' c) (?qs c)" for c by (rule fr)
      qed
      then show ?thesis by simp
    qed
  qed
qed

lemma geo_ok_descend:
  assumes geo: "geo_ok ss d i st"
  shows "geo_ok ss d i (st\<lparr>b_quads := (b_quads st)(j := add_star (ss ! i) (b_quads st j))\<rparr>)"
proof (rule geo_okI)
  let ?qs = "b_quads st"
  let ?qs' = "(b_quads st)(j := add_star (ss ! i) (b_quads st j))"
  let ?st' = "st\<lparr>b_quads := ?qs'\<rparr>"
  have fr: "same_frame (?qs' b) (?qs b)" for b by simp
  show "in_square (b_quads ?st' 0) (node_x (ss ! k)) (node_y (ss ! k))" if "k < length ss" for k
    using geo_okD(1) [OF geo that] same_frame_in_square [OF fr [of 0]] by simp
  show "quad_geo ss d i (b_quads ?st') a" if a: "a < quad_count ?st'" for a
  proof -
    have a': "a < quad_count st" using a by simp
    have "quad_geo ss d i ?qs' a"
    proof (rule quad_geo_keep [OF geo_okD(2) [OF geo a']])
      show "same_frame (?qs' a) (?qs a)" by (rule fr)
      show "children (?qs' a) = children (?qs a)" by simp
      show "same_frame (?qs' c) (?qs c)" for c by (rule fr)
    qed
    then show ?thesis by simp
  qed
qed

lemma make_quad_child_geo:
  "same_frame parent q \<Longrightarrow> child_geo q qd (make_quad ss qs parent qd old slot)"
  by (simp add: child_geo_def same_frame_def)

lemma make_quad_children_star:
  "children (make_quad ss qs parent qd (StarP k) zero_quad) =
     (\<lambda>_. Null)(get_quadrant (make_quad ss qs parent qd (StarP k) zero_quad)
                    (node_x (ss ! k)) (node_y (ss ! k)) := StarP k)"
  by (simp add: make_quad_def Let_def get_quadrant_def)

lemma geo_ok_split:
  assumes sep: "separated ss d" and i: "i < length ss"
    and ok: "tree_ok st" and geo: "geo_ok ss d i st" and j: "j < quad_count st"
    and sq: "in_square (b_quads st j) (node_x (ss ! i)) (node_y (ss ! i))"
    and qd: "qd = get_quadrant (b_quads st j) (node_x (ss ! i)) (node_y (ss ! i))"
    and c: "children (b_quads st j) qd = c" "c \<noteq> Null" "ptr_size (b_quads st) c = 0"
    and nq: "nq = make_quad ss qs1 (add_star (ss ! i) (b_quads st j)) qd c (b_quads st (quad_count st))"
    and st': "st' = \<lparr>b_quads = (b_quads st)(quad_count st := nq,
            j := set_child (add_star (ss ! i) (b_quads st j)) qd (QuadP (quad_count st))),
          quad_count = quad_count st + 1\<rparr>"
  shows "geo_ok ss d i st' \<and> in_square (b_quads st' (quad_count st)) (node_x (ss ! i)) (node_y (ss ! i)) \<and>
         quad_size (b_quads st' (quad_count st)) = quad_size (b_quads st j) / 2 \<and>
         d \<le> quad_size (b_quads st' (quad_count st))"
proof -
  let ?qs = "b_quads st"
  define n where "n = quad_count st"
  define qs' where "qs' = (?qs)(n := nq, j := set_child (add_star (ss ! i) (?qs j)) qd (QuadP n))"
  note D = tree_okD [OF ok]
  note gj = quad_geoD [OF geo_okD(2) [OF geo j]]
  have jn: "j \<noteq> n" "j < n" using j by (simp_all add: n_def)
  have n0: "n \<noteq> 0" using jn by simp
  have zn: "?qs n = zero_quad" using D(2) [of n] by (simp add: n_def)
  have qn: "qs' n = nq" using jn by (simp add: qs'_def)
  have qj: "qs' j = set_child (add_star (ss ! i) (?qs j)) qd (QuadP n)" by (simp add: qs'_def)
  have qo: "qs' a = ?qs a" if "a \<noteq> j" "a \<noteq> n" for a using that by (simp add: qs'_def)
  have fr: "same_frame (qs' a) (?qs a)" if "a \<noteq> n" for a
    using that by (cases "a = j") (simp_all add: qs'_def)
  \<comment> \<open>the old node is a star\<close>
  obtain k where k: "c = StarP k"
  proof (cases c)
    case Null
    then show ?thesis using c(2) by simp
  next
    case (StarP k)
    then show ?thesis using that by simp
  next
    case (QuadP c')
    have c': "0 < c'" "c' < quad_count st" using D(3) [OF j] c(1) QuadP by simp_all
    have "d \<le> quad_size (?qs c')"
      using quad_geoD(1) [OF geo_okD(2) [OF geo c'(2)]] c'(1) by simp
    moreover have "0 < d" using sep by (simp add: separated_def)
    ultimately show ?thesis using c(3) QuadP by simp
  qed
  have kl: "k < i" and ksq: "in_square (?qs j) (node_x (ss ! k)) (node_y (ss ! k))"
    and kq: "get_quadrant (?qs j) (node_x (ss ! k)) (node_y (ss ! k)) = qd"
    using gj(3) [of qd k] c(1) k by simp_all
  \<comment> \<open>the two stars are at least d apart, so the quad is at least 2 d wide\<close>
  have "apart (ss ! i) (ss ! k) \<le> quad_size (?qs j) / 2"
    using same_quadrant_close [OF sq ksq] kq qd unfolding apart_def by (simp only: max_def) simp
  moreover have "d \<le> apart (ss ! i) (ss ! k)"
    using sep i kl by (simp add: separated_def)
  ultimately have dle: "d \<le> quad_size (?qs j) / 2" by simp
  have cg: "child_geo (?qs j) qd nq"
    unfolding nq by (rule make_quad_child_geo) simp
  have nqs: "quad_size nq = quad_size (?qs j) / 2" using cg by (simp add: child_geo_def)
  have nqc: "children nq = (\<lambda>_. Null)(get_quadrant nq (node_x (ss ! k)) (node_y (ss ! k)) := StarP k)"
    unfolding nq k n_def [symmetric] zn by (rule make_quad_children_star)
  have isq: "in_square nq (node_x (ss ! i)) (node_y (ss ! i))"
    using child_square [OF sq] cg qd by simp
  have ksq': "in_square nq (node_x (ss ! k)) (node_y (ss ! k))"
    using child_square [OF ksq] cg kq by simp
  have gn: "quad_geo ss d i qs' n"
    unfolding quad_geo_def qn using dle nqs kl ksq' by (auto simp: nqc split: if_splits)
  have gjn: "quad_geo ss d i qs' j"
  proof (rule quad_geo_quad [where tgt = qd and n = n])
    show "quad_geo ss d i ?qs j" using geo_okD(2) [OF geo j] .
    show "same_frame (qs' j) (?qs j)" using fr jn by simp
    show "children (qs' j) = (children (?qs j))(qd := QuadP n)" by (simp add: qj)
    show "same_frame (qs' c'') (?qs c'')" if "children (?qs j) slot = QuadP c''" for slot c''
      using D(3) [OF j that] fr [of c''] by (simp add: n_def)
    show "child_geo (?qs j) qd (qs' n)" using cg qn by simp
  qed
  have go: "quad_geo ss d i qs' a" if a: "a < n" "a \<noteq> j" for a
  proof (rule quad_geo_keep)
    have a': "a < quad_count st" using a by (simp add: n_def)
    show "quad_geo ss d i ?qs a" using geo_okD(2) [OF geo a'] .
    show "same_frame (qs' a) (?qs a)" using fr a by simp
    show "children (qs' a) = children (?qs a)" using qo a by simp
    show "same_frame (qs' c'') (?qs c'')" if "children (?qs a) slot = QuadP c''" for slot c''
      using D(3) [OF a' that] fr [of c''] by (simp add: n_def)
  qed
  have "geo_ok ss d i st'"
  proof (rule geo_okI)
    have bq: "b_quads st' = qs'" by (simp add: st' qs'_def n_def)
    show "in_square (b_quads st' 0) (node_x (ss ! k')) (node_y (ss ! k'))" if "k' < length ss" for k'
      using geo_okD(1) [OF geo that] same_frame_in_square [OF fr [OF n0 [symmetric]]] by (simp add: bq)
    show "quad_geo ss d i (b_quads st') a" if "a < quad_count st'" for a
    proof -
      have "a < Suc n" using that by (simp add: st' n_def)
      then consider "a = j" | "a = n" | "a \<noteq> j" "a < n" using less_Suc_eq by blast
      then show ?thesis
      proof cases
        case 1
        then show ?thesis using gjn by (simp add: bq)
      next
        case 2
        then show ?thesis using gn by (simp add: bq)
      next
        case 3
        then show ?thesis using go by (simp add: bq)
      qed
    qed
  qed
  moreover have "b_quads st' (quad_count st) = nq"
    using qn by (simp add: st' qs'_def n_def)
  ultimately show ?thesis using isq nqs dle by simp
qed

lemma insert_step_geo:
  assumes sep: "separated ss d" and i: "i < length ss"
    and ok: "tree_ok st" and geo: "geo_ok ss d i st" and j: "j < quad_count st"
    and sq: "in_square (b_quads st j) (node_x (ss ! i)) (node_y (ss ! i))"
    and step: "insert_step ss i j st = (st', p)"
  shows "((\<exists>k. p = StarP k) \<and> geo_ok ss d (Suc i) st') \<or>
         (\<exists>c. p = QuadP c \<and> geo_ok ss d i st' \<and>
              in_square (b_quads st' c) (node_x (ss ! i)) (node_y (ss ! i)) \<and>
              quad_size (b_quads st' c) = quad_size (b_quads st j) / 2 \<and>
              d \<le> quad_size (b_quads st' c))"
proof -
  define qd where "qd = get_quadrant (b_quads st j) (node_x (ss ! i)) (node_y (ss ! i))"
  define c where "c = children (b_quads st j) qd"
  note D = tree_okD [OF ok]
  consider (empty) "c = Null" | (split) "c \<noteq> Null" "ptr_size (b_quads st) c = 0"
    | (descend) "c \<noteq> Null" "ptr_size (b_quads st) c \<noteq> 0"
    by blast
  then show ?thesis
  proof cases
    case empty
    from insert_step_empty [of st j ss i] empty step
    have eq: "st' = st\<lparr>b_quads := (b_quads st)(j := set_child (add_star (ss ! i) (b_quads st j)) qd (StarP i))\<rparr>"
      and p: "p = StarP i"
      unfolding c_def qd_def by simp_all
    show ?thesis unfolding eq p using geo_ok_empty [OF ok geo j sq qd_def] by simp
  next
    case descend
    from insert_step_descend [of st j ss i c] descend step
    have eq: "st' = st\<lparr>b_quads := (b_quads st)(j := add_star (ss ! i) (b_quads st j))\<rparr>"
      and p: "p = c"
      unfolding c_def qd_def by simp_all
    obtain c' where c': "c = QuadP c'" using descend by (cases c) simp_all
    have cc: "0 < c'" "c' < quad_count st" "c' \<noteq> j"
      using D(3) [OF j] c' by (simp_all add: c_def)
    have cg: "child_geo (b_quads st j) qd (b_quads st c')"
      using quad_geoD(2) [OF geo_okD(2) [OF geo j]] c' by (simp add: c_def)
    have q': "b_quads st' c' = b_quads st c'" using cc by (simp add: eq)
    have "in_square (b_quads st c') (node_x (ss ! i)) (node_y (ss ! i))"
      using child_square [OF sq] cg by (simp add: qd_def)
    moreover have "quad_size (b_quads st c') = quad_size (b_quads st j) / 2"
      using cg by (simp add: child_geo_def)
    moreover have "d \<le> quad_size (b_quads st c')"
      using quad_geoD(1) [OF geo_okD(2) [OF geo cc(2)]] cc(1) by simp
    moreover have "geo_ok ss d i st'" unfolding eq using geo by (rule geo_ok_descend)
    ultimately show ?thesis using p c' q' by simp
  next
    case split
    have jn: "j \<noteq> quad_count st" using j by simp
    from insert_step_split [of st j ss i c] split step jn
    have eq: "st' = \<lparr>b_quads = (b_quads st)
         (quad_count st := make_quad ss ((b_quads st)(j := add_star (ss ! i) (b_quads st j)))
              (add_star (ss ! i) (b_quads st j)) qd c (b_quads st (quad_count st)),
          j := set_child (add_star (ss ! i) (b_quads st j)) qd (QuadP (quad_count st))),
       quad_count = quad_count st + 1\<rparr>"
      and p: "p = QuadP (quad_count st)"
      unfolding c_def qd_def by simp_all
    from geo_ok_split [OF sep i ok geo j sq qd_def c_def [symmetric] split refl eq]
    show ?thesis using p by simp
  qed
qed

lemma insert_step_frame:
  assumes step: "insert_step ss i j st = (st', p)" and j: "j < quad_count st" and a: "a < quad_count st"
  shows "same_frame (b_quads st' a) (b_quads st a)"
proof -
  define qd where "qd = get_quadrant (b_quads st j) (node_x (ss ! i)) (node_y (ss ! i))"
  define c where "c = children (b_quads st j) qd"
  consider (empty) "c = Null" | (split) "c \<noteq> Null" "ptr_size (b_quads st) c = 0"
    | (descend) "c \<noteq> Null" "ptr_size (b_quads st) c \<noteq> 0"
    by blast
  then show ?thesis
  proof cases
    case empty
    from insert_step_empty [of st j ss i] empty step
    have "st' = st\<lparr>b_quads := (b_quads st)(j := set_child (add_star (ss ! i) (b_quads st j)) qd (StarP i))\<rparr>"
      unfolding c_def qd_def by simp
    then show ?thesis by simp
  next
    case descend
    from insert_step_descend [of st j ss i c] descend step
    have "st' = st\<lparr>b_quads := (b_quads st)(j := add_star (ss ! i) (b_quads st j))\<rparr>"
      unfolding c_def qd_def by simp
    then show ?thesis by simp
  next
    case split
    have jn: "j \<noteq> quad_count st" using j by simp
    from insert_step_split [of st j ss i c] split step jn
    have "st' = \<lparr>b_quads = (b_quads st)
         (quad_count st := make_quad ss ((b_quads st)(j := add_star (ss ! i) (b_quads st j)))
              (add_star (ss ! i) (b_quads st j)) qd c (b_quads st (quad_count st)),
          j := set_child (add_star (ss ! i) (b_quads st j)) qd (QuadP (quad_count st))),
       quad_count = quad_count st + 1\<rparr>"
      unfolding c_def qd_def by simp
    then show ?thesis using a by simp
  qed
qed

lemma insert_star_root_size:
  "tree_ok st \<Longrightarrow> j < quad_count st \<Longrightarrow> insert_star fuel ss i j st = Some st' \<Longrightarrow>
   quad_size (b_quads st' 0) = quad_size (b_quads st 0)"
proof (induction fuel arbitrary: j st)
  case 0
  then show ?case by simp
next
  case (Suc fuel)
  obtain st1 p where step: "insert_step ss i j st = (st1, p)" by (cases "insert_step ss i j st")
  note ok1 = insert_step_tree_ok [OF Suc.prems(1,2) step]
  have z: "0 < quad_count st" using Suc.prems(1) by (rule tree_okD(1))
  have r1: "quad_size (b_quads st1 0) = quad_size (b_quads st 0)"
    using insert_step_frame [OF step Suc.prems(2) z] by (simp add: same_frame_def)
  show ?case
  proof (cases p)
    case (QuadP c)
    then have c: "c < quad_count st1" using ok1 by simp
    show ?thesis
    proof (cases "quad_size (b_quads st1 c) \<noteq> 0")
      case True
      then have "insert_star fuel ss i c st1 = Some st'"
        using Suc.prems(3) step QuadP by simp
      from Suc.IH [OF _ c this] ok1 r1 show ?thesis by simp
    next
      case False
      then show ?thesis using Suc.prems(3) step QuadP r1 by simp
    qed
  next
    case Null
    then show ?thesis using Suc.prems(3) step r1 by simp
  next
    case (StarP k)
    then show ?thesis using Suc.prems(3) step r1 by simp
  qed
qed

lemma insert_star_terminates:
  assumes sep: "separated ss d" and i: "i < length ss"
  shows "tree_ok st \<Longrightarrow> geo_ok ss d i st \<Longrightarrow> j < quad_count st \<Longrightarrow>
         in_square (b_quads st j) (node_x (ss ! i)) (node_y (ss ! i)) \<Longrightarrow>
         quad_size (b_quads st j) < d * 2 ^ m \<Longrightarrow>
         \<exists>st'. insert_star (Suc m) ss i j st = Some st' \<and> tree_ok st' \<and> geo_ok ss d (Suc i) st'"
proof (induction m arbitrary: j st)
  case 0
  obtain st1 p where step: "insert_step ss i j st = (st1, p)" by (cases "insert_step ss i j st")
  note ok1 = insert_step_tree_ok [OF "0.prems"(1,3) step]
  from insert_step_geo [OF sep i "0.prems"(1,2,3,4) step]
  show ?case
  proof
    assume "(\<exists>k. p = StarP k) \<and> geo_ok ss d (Suc i) st1"
    then show ?thesis using step ok1 by auto
  next
    assume "\<exists>c. p = QuadP c \<and> geo_ok ss d i st1 \<and>
              in_square (b_quads st1 c) (node_x (ss ! i)) (node_y (ss ! i)) \<and>
              quad_size (b_quads st1 c) = quad_size (b_quads st j) / 2 \<and>
              d \<le> quad_size (b_quads st1 c)"
    then have "d \<le> quad_size (b_quads st j) / 2" by auto
    moreover have "0 < d" using sep by (simp add: separated_def)
    ultimately show ?thesis using "0.prems"(5) by simp
  qed
next
  case (Suc m)
  obtain st1 p where step: "insert_step ss i j st = (st1, p)" by (cases "insert_step ss i j st")
  note ok1 = insert_step_tree_ok [OF Suc.prems(1,3) step]
  from insert_step_geo [OF sep i Suc.prems(1,2,3,4) step]
  show ?case
  proof
    assume "(\<exists>k. p = StarP k) \<and> geo_ok ss d (Suc i) st1"
    then show ?thesis using step ok1 by auto
  next
    assume "\<exists>c. p = QuadP c \<and> geo_ok ss d i st1 \<and>
              in_square (b_quads st1 c) (node_x (ss ! i)) (node_y (ss ! i)) \<and>
              quad_size (b_quads st1 c) = quad_size (b_quads st j) / 2 \<and>
              d \<le> quad_size (b_quads st1 c)"
    then obtain c where c: "p = QuadP c" "geo_ok ss d i st1"
      "in_square (b_quads st1 c) (node_x (ss ! i)) (node_y (ss ! i))"
      "quad_size (b_quads st1 c) = quad_size (b_quads st j) / 2"
      "d \<le> quad_size (b_quads st1 c)" by blast
    have dpos: "0 < d" using sep by (simp add: separated_def)
    have nz: "quad_size (b_quads st1 c) \<noteq> 0" using c(5) dpos by simp
    have lt: "quad_size (b_quads st1 c) < d * 2 ^ m" using c(4) Suc.prems(5) by simp
    have cl: "c < quad_count st1" using ok1 c(1) by simp
    from Suc.IH [OF _ c(2) cl c(3) lt] ok1
    obtain st' where "insert_star (Suc m) ss i c st1 = Some st'" "tree_ok st'" "geo_ok ss d (Suc i) st'"
      by blast
    then show ?thesis using step c(1) nz by simp
  qed
qed

lemma insert_stars_terminates:
  assumes sep: "separated ss d"
  shows "tree_ok st \<Longrightarrow> geo_ok ss d t st \<Longrightarrow> t + n = length ss \<Longrightarrow>
         quad_size (b_quads st 0) < d * 2 ^ m \<Longrightarrow>
         \<exists>st'. insert_stars (Suc m) ss [t ..< t + n] st = Some st'"
proof (induction n arbitrary: t st)
  case 0
  then show ?case by simp
next
  case (Suc n)
  have t: "t < length ss" using Suc.prems(3) by simp
  have z: "0 < quad_count st" using Suc.prems(1) by (rule tree_okD(1))
  have sq: "in_square (b_quads st 0) (node_x (ss ! t)) (node_y (ss ! t))"
    using geo_okD(1) [OF Suc.prems(2) t] .
  from insert_star_terminates [OF sep t Suc.prems(1,2) z sq Suc.prems(4)]
  obtain st1 where st1: "insert_star (Suc m) ss t 0 st = Some st1" "tree_ok st1" "geo_ok ss d (Suc t) st1"
    by blast
  have "quad_size (b_quads st1 0) < d * 2 ^ m"
    using insert_star_root_size [OF Suc.prems(1) z st1(1)] Suc.prems(4) by simp
  from Suc.IH [OF st1(2,3) _ this] Suc.prems(3)
  obtain st' where "insert_stars (Suc m) ss [Suc t ..< Suc t + n] st1 = Some st'" by auto
  moreover have "[t ..< t + Suc n] = t # [Suc t ..< Suc t + n]"
    by (simp add: upt_rec)
  ultimately show ?case using st1(1) by simp
qed

lemma lower_fold:
  "\<exists>v. fold (\<lambda>s m. lower_bound m (f s)) ss (Some u) = Some v \<and> v \<le> u \<and> (\<forall>s\<in>set ss. v \<le> f s)"
proof (induction ss arbitrary: u)
  case Nil
  then show ?case by simp
next
  case (Cons s ss)
  obtain u' where u': "lower_bound (Some u) (f s) = Some u'" "u' \<le> u" "u' \<le> f s"
    by (cases "u > f s") (simp_all add: lower_bound_def)
  from Cons [of u'] obtain v where
    "fold (\<lambda>s m. lower_bound m (f s)) ss (Some u') = Some v" "v \<le> u'" "\<forall>s\<in>set ss. v \<le> f s"
    by blast
  then show ?case using u' by auto
qed

lemma upper_fold:
  "\<exists>v. fold (\<lambda>s m. upper_bound m (f s)) ss (Some u) = Some v \<and> u \<le> v \<and> (\<forall>s\<in>set ss. f s \<le> v)"
proof (induction ss arbitrary: u)
  case Nil
  then show ?case by simp
next
  case (Cons s ss)
  obtain u' where u': "upper_bound (Some u) (f s) = Some u'" "u \<le> u'" "f s \<le> u'"
    by (cases "u < f s") (simp_all add: upper_bound_def)
  from Cons [of u'] obtain v where
    "fold (\<lambda>s m. upper_bound m (f s)) ss (Some u') = Some v" "u' \<le> v" "\<forall>s\<in>set ss. f s \<le> v"
    by blast
  then show ?case using u' by auto
qed

lemma lower_world:
  assumes "s \<in> set ss"
  shows "the (fold (\<lambda>s m. lower_bound m (f s)) ss None) \<le> f s"
proof (cases ss)
  case Nil
  then show ?thesis using assms by simp
next
  case (Cons s0 rest)
  from lower_fold [of f rest "f s0"] obtain v where
    "fold (\<lambda>s m. lower_bound m (f s)) rest (Some (f s0)) = Some v" "v \<le> f s0" "\<forall>s\<in>set rest. v \<le> f s"
    by blast
  then show ?thesis using assms Cons by (auto simp: lower_bound_def)
qed

lemma upper_world:
  assumes "s \<in> set ss"
  shows "f s \<le> the (fold (\<lambda>s m. upper_bound m (f s)) ss None)"
proof (cases ss)
  case Nil
  then show ?thesis using assms by simp
next
  case (Cons s0 rest)
  from upper_fold [of f rest "f s0"] obtain v where
    "fold (\<lambda>s m. upper_bound m (f s)) rest (Some (f s0)) = Some v" "f s0 \<le> v" "\<forall>s\<in>set rest. f s \<le> v"
    by blast
  then show ?thesis using assms Cons by (auto simp: upper_bound_def)
qed

lemma world_bounds:
  assumes "s \<in> set ss"
  shows "xmin_world ss \<le> node_x s" "node_x s \<le> xmax_world ss"
    "ymin_world ss \<le> node_y s" "node_y s \<le> ymax_world ss"
  unfolding xmin_world_def xmax_world_def ymin_world_def ymax_world_def
  using assms by (rule lower_world upper_world)+

lemma root_square:
  assumes "s \<in> set ss"
  shows "in_square (b_quads (init_root ss qs) 0) (node_x s) (node_y s)"
  using world_bounds [OF assms]
  by (simp add: init_root_def Let_def in_square_def abs_le_iff field_simps)

lemma init_root_geo_ok: "geo_ok ss d 0 (init_root ss (\<lambda>_. zero_quad))"
proof (rule geo_okI)
  show "in_square (b_quads (init_root ss (\<lambda>_. zero_quad)) 0) (node_x (ss ! i)) (node_y (ss ! i))"
    if "i < length ss" for i
    using that by (intro root_square) simp
  show "quad_geo ss d 0 (b_quads (init_root ss (\<lambda>_. zero_quad))) a"
    if "a < quad_count (init_root ss (\<lambda>_. zero_quad))" for a
    using that by (simp add: init_root_def Let_def quad_geo_def)
qed

lemma positive_lower_bound:
  fixes S :: "real set"
  assumes "finite S" "\<forall>x\<in>S. 0 < x"
  shows "\<exists>d>0. \<forall>x\<in>S. d \<le> x"
  using assms
proof (induction S)
  case empty
  show ?case by (intro exI [of _ 1]) simp
next
  case (insert x S)
  then obtain d where d: "0 < d" "\<forall>y\<in>S. d \<le> y" by auto
  have "0 < x" using insert.prems by simp
  then have "0 < min d x" "\<forall>y\<in>insert x S. min d x \<le> y"
    using d by auto
  then show ?case by blast
qed

lemma apart_pos:
  assumes "distinct (map (\<lambda>s. (node_x s, node_y s)) ss)" "a < length ss" "b < length ss" "a \<noteq> b"
  shows "0 < apart (ss ! a) (ss ! b)"
proof -
  have "map (\<lambda>s. (node_x s, node_y s)) ss ! a \<noteq> map (\<lambda>s. (node_x s, node_y s)) ss ! b"
    using assms by (simp add: nth_eq_iff_index_eq del: nth_map)
  then have "node_x (ss ! a) \<noteq> node_x (ss ! b) \<or> node_y (ss ! a) \<noteq> node_y (ss ! b)"
    using assms(2,3) by simp
  then show ?thesis unfolding apart_def by auto
qed

lemma separated_exists:
  assumes "distinct (map (\<lambda>s. (node_x s, node_y s)) ss)"
  shows "\<exists>d. separated ss d"
proof -
  define S where "S = (\<lambda>(a, b). apart (ss ! a) (ss ! b)) `
      {(a, b). a < length ss \<and> b < length ss \<and> a \<noteq> b}"
  have "{(a, b). a < length ss \<and> b < length ss \<and> a \<noteq> b} \<subseteq> {..< length ss} \<times> {..< length ss}"
    by auto
  then have "finite {(a, b). a < length ss \<and> b < length ss \<and> a \<noteq> b}"
    by (rule finite_subset) simp
  then have fin: "finite S" unfolding S_def by (rule finite_imageI)
  have "\<forall>x\<in>S. 0 < x" unfolding S_def using apart_pos [OF assms] by auto
  from positive_lower_bound [OF fin this] obtain d where d: "0 < d" "\<forall>x\<in>S. d \<le> x" by blast
  have "d \<le> apart (ss ! a) (ss ! b)" if "a < length ss" "b < length ss" "a \<noteq> b" for a b
  proof -
    have "apart (ss ! a) (ss ! b) \<in> S" unfolding S_def using that by auto
    then show ?thesis using d(2) by blast
  qed
  then show ?thesis using d(1) unfolding separated_def by blast
qed

lemma fuel_exists:
  fixes s d :: real
  assumes "0 < d"
  shows "\<exists>m. s < d * 2 ^ m"
proof -
  obtain m where "s / d < 2 ^ m" using real_arch_pow [of 2 "s / d"] by auto
  then have "s < d * 2 ^ m" using assms by (simp add: field_simps)
  then show ?thesis ..
qed

lemma build_returns:
  assumes "distinct (map (\<lambda>s. (node_x s, node_y s)) ss)"
  shows "\<exists>fuel b. build_tree fuel ss (\<lambda>_. zero_quad) = Some b"
proof -
  obtain d where sep: "separated ss d" using separated_exists [OF assms] ..
  then have "0 < d" by (simp add: separated_def)
  then obtain m where m: "quad_size (b_quads (init_root ss (\<lambda>_. zero_quad)) 0) < d * 2 ^ m"
    using fuel_exists by blast
  from insert_stars_terminates [OF sep init_root_tree_ok init_root_geo_ok _ m, of "length ss"]
  obtain b where "insert_stars (Suc m) ss [0 ..< length ss] (init_root ss (\<lambda>_. zero_quad)) = Some b"
    by auto
  then have "build_tree (Suc m) ss (\<lambda>_. zero_quad) = Some b" by (simp add: build_tree_def)
  then show ?thesis by blast
qed
section \<open>A frame returns\<close>

text \<open>
  More passes than needed do not change the result of the build. With stars at pairwise
  distinct positions, the zeroed arena, and every worker running once, enough passes and
  nested calls let the whole frame return.
\<close>

lemma insert_star_more_fuel:
  "insert_star fuel ss i j st = Some st' \<Longrightarrow> insert_star (fuel + k) ss i j st = Some st'"
proof (induction fuel arbitrary: j st)
  case 0
  then show ?case by simp
next
  case (Suc fuel)
  obtain st1 p where step: "insert_step ss i j st = (st1, p)" by (cases "insert_step ss i j st")
  show ?case
  proof (cases p)
    case (QuadP c)
    show ?thesis
    proof (cases "quad_size (b_quads st1 c) \<noteq> 0")
      case True
      then have "insert_star fuel ss i c st1 = Some st'"
        using Suc.prems step QuadP by simp
      from Suc.IH [OF this] show ?thesis using step QuadP True by simp
    next
      case False
      then show ?thesis using Suc.prems step QuadP by simp
    qed
  next
    case Null
    then show ?thesis using Suc.prems step by simp
  next
    case (StarP s)
    then show ?thesis using Suc.prems step by simp
  qed
qed

lemma insert_stars_more_fuel:
  "insert_stars fuel ss is st = Some st' \<Longrightarrow> insert_stars (fuel + k) ss is st = Some st'"
proof (induction "is" arbitrary: st)
  case Nil
  then show ?case by simp
next
  case (Cons i "is")
  then obtain st1 where s1: "insert_star fuel ss i 0 st = Some st1"
    and rest: "insert_stars fuel ss is st1 = Some st'"
    by (auto split: option.splits)
  from insert_star_more_fuel [OF s1, of k] Cons.IH [OF rest] show ?case by simp
qed

lemma build_tree_more_fuel:
  "build_tree fuel ss qs = Some b \<Longrightarrow> build_tree (fuel + k) ss qs = Some b"
  unfolding build_tree_def by (rule insert_stars_more_fuel)

lemma accel_phase_returns:
  assumes ok: "tree_ok st" and fuel: "quad_count st < fuel" and qs: "qs = b_quads st"
    and sched: "1 < P \<longrightarrow> distinct order \<and> set order = {0 ..< P}"
  shows "\<exists>ss'. accel_phase fuel cfg ft qs P order ss = Some ss'"
proof -
  have w: "walk fuel cfg ss qs i \<noteq> None" for i
  proof -
    have "0 < quad_count st" using ok by (rule tree_okD(1))
    moreover have "quad_count st - 0 < fuel" using fuel by simp
    ultimately show ?thesis
      using get_accel_total_aux [OF ok, of 0 fuel cfg ss i "\<lparr>vx = 0, vy = 0\<rparr>"]
      by (auto simp: walk_def qs)
  qed
  have "distinct [0 ..< length ss]" by simp
  then have inl: "\<exists>ss'. update_stars fuel cfg ft qs [0 ..< length ss] ss = Some ss'"
    using w by (simp add: update_stars_canonical)
  show ?thesis
  proof (cases "1 < P")
    case True
    then have "run_pool fuel cfg ft qs P order ss = update_stars fuel cfg ft qs [0 ..< length ss] ss"
      using sched by (intro pool_is_inline) simp_all
    then show ?thesis using inl True by (simp add: accel_phase_def)
  next
    case False
    then show ?thesis using inl by (simp add: accel_phase_def)
  qed
qed

lemma frame_returns:
  assumes dist: "distinct (map (\<lambda>s. (node_x s, node_y s)) (stars w))"
    and arena: "quads w = (\<lambda>_. zero_quad)"
    and sched: "1 < cores w \<longrightarrow> distinct order \<and> set order = {0 ..< cores w}"
  shows "\<exists>fuel w'. world_frame fuel cfg order time w = Some w'"
proof -
  obtain f0 b where b: "build_tree f0 (stars w) (\<lambda>_. zero_quad) = Some b"
    using build_returns [OF dist] by blast
  define fuel where "fuel = f0 + Suc (quad_count b)"
  have bt: "build_tree fuel (stars w) (quads w) = Some b"
    unfolding fuel_def arena using b by (rule build_tree_more_fuel)
  have ok: "tree_ok b" using b by (rule build_tree_ok)
  have "quad_count b < fuel" by (simp add: fuel_def)
  from accel_phase_returns [OF ok this refl sched]
  obtain ss1 where "accel_phase fuel cfg (clamp_frame_time cfg time) (b_quads b) (cores w) order (stars w) = Some ss1"
    by blast
  then have "\<exists>w'. world_frame fuel cfg order time w = Some w'"
    using bt by (simp add: world_frame_def Let_def)
  then show ?thesis ..
qed

text \<open>The arena is zeroed again when a frame that started from the zeroed arena returns.\<close>

lemma frame_resets_arena:
  assumes arena: "quads w = (\<lambda>_. zero_quad)"
    and frame: "world_frame fuel cfg order time w = Some w'"
  shows "quads w' = (\<lambda>_. zero_quad)"
proof -
  have "\<exists>b. build_tree fuel (stars w) (quads w) = Some b \<and>
      quads w' = (\<lambda>j. if j < quad_count b then zero_quad else b_quads b j)"
    using frame by (auto simp: world_frame_def Let_def split: option.splits)
  then obtain b :: bstate where b: "build_tree fuel (stars w) (\<lambda>_. zero_quad) = Some b"
    and q: "quads w' = (\<lambda>j. if j < quad_count b then zero_quad else b_quads b j)"
    unfolding arena by blast
  have "b_quads b j = zero_quad" if "\<not> j < quad_count b" for j
    using tree_okD(2) [OF build_tree_ok [OF b], of j] that by simp
  then show ?thesis unfolding q by auto
qed

section \<open>The pool and the inline loop\<close>

text \<open>
  When each of the \<open>P > 1\<close> workers runs exactly one round, in whatever order, the
  velocity update of the pool gives the same stars as the inline loop: the index ranges
  from \<open>N * p div P\<close> up to \<open>N * (p + 1) div P\<close> together hold every star index
  exactly once, a round writes only the speed and the stored acceleration of its own
  stars, and the walk reads only positions and masses. The product of the star count and
  \<open>P\<close> fits a C \<^verbatim>\<open>int\<close>.
\<close>

lemma pool_equivalence:
  assumes "distinct order" "set order = {0 ..< P}" "1 < P"
    and "length (stars w) * P \<le> 2147483647"
  shows "mset (concat (map (part_range (length (stars w)) P) order)) = mset [0 ..< length (stars w)] \<and>
         map_option stars (world_frame fuel cfg order time (w\<lparr>cores := P\<rparr>)) =
         map_option stars (world_frame fuel cfg order' time (w\<lparr>cores := 1\<rparr>)) \<and>
         map_option disp_stars (world_frame fuel cfg order time (w\<lparr>cores := P\<rparr>)) =
         map_option disp_stars (world_frame fuel cfg order' time (w\<lparr>cores := 1\<rparr>))"
proof -
  have P: "0 < P" using assms(3) by simp
  then have "\<And>ft qs. accel_phase fuel cfg ft qs P order (stars w) = accel_phase fuel cfg ft qs 1 order' (stars w)"
    using assms(1,2,3) by (simp add: accel_phase_def pool_is_inline)
  then have "map_option stars (world_frame fuel cfg order time (w\<lparr>cores := P\<rparr>)) =
         map_option stars (world_frame fuel cfg order' time (w\<lparr>cores := 1\<rparr>)) \<and>
         map_option disp_stars (world_frame fuel cfg order time (w\<lparr>cores := P\<rparr>)) =
         map_option disp_stars (world_frame fuel cfg order' time (w\<lparr>cores := 1\<rparr>))"
    by (simp add: world_frame_def Let_def split: option.splits)
  then show ?thesis
    using pool_indices [OF assms(1,2) P] by simp
qed

lemma job_range2: "part_start 2 2 0 = 0" "part_end 2 2 0 = Suc 0"
  "part_start (Suc (Suc 0)) 2 0 = 0" "part_end (Suc (Suc 0)) 2 0 = Suc 0"
  by (simp_all add: part_start_def part_end_def)

lemma upt_one: "[0 ..< Suc 0] = [0]" "[Suc 0 ..< 2] = [Suc 0]"
  by (simp_all add: upt_rec)

lemma schedule_twice: "pool_schedule 2 [0, 0]"
  by (simp add: pool_schedule_def post_jobs_def worker_round_def)

text \<open>
  Claim C6, at the two-star world with two workers and a frame of a twentieth of a
  second: the rounds 0, 0 are a schedule of the pool, in which worker 0 takes both tokens
  of \<^verbatim>\<open>job_start\<close> and worker 1 none. The star of worker 0 is then updated twice and the
  star of worker 1 not at all, and the frame ends with other speeds, stored accelerations
  and positions than the frame of the inline loop.
\<close>

theorem pool_skips_worker:
  "pool_schedule 2 [0, 0] \<and>
   map_option stars (world_frame 2 example_config [0, 0] (1 / 20) two_star_world) =
     Some [\<lparr>node_x = 63 / 400, node_y = 1 / 10, node_mass = 1, speed_x = 249 / 80, speed_y = 2,
             accel_x = 3 / 80, accel_y = 0\<rparr>,
           \<lparr>node_x = 1, node_y = 1 / 4, node_mass = 3, speed_x = 0, speed_y = 0,
             accel_x = 0, accel_y = 5\<rparr>] \<and>
   map_option stars (world_frame 2 example_config [] (1 / 20) (two_star_world\<lparr>cores := 1\<rparr>)) =
     Some [\<lparr>node_x = 123 / 800, node_y = 1 / 10, node_mass = 1, speed_x = 243 / 80, speed_y = 2,
             accel_x = 3 / 80, accel_y = 0\<rparr>,
           \<lparr>node_x = 799 / 800, node_y = 1 / 4, node_mass = 3, speed_x = - (1 / 80), speed_y = 5,
             accel_x = - (1 / 80), accel_y = 0\<rparr>]"
proof -
  note s = schedule_twice
  have ft: "clamp_frame_time example_config (1 / 20) = 1 / 20"
    by (simp add: clamp_frame_time_def example_config_def)
  have u1: "update_star 2 example_config (1 / 20) two_star_tree 0 two_stars =
     Some [\<lparr>node_x = 0, node_y = 0, node_mass = 1, speed_x = 243 / 80, speed_y = 2,
             accel_x = 3 / 80, accel_y = 0\<rparr>,
           \<lparr>node_x = 1, node_y = 0, node_mass = 3, speed_x = 0, speed_y = 0,
             accel_x = 0, accel_y = 5\<rparr>]"
    by (simp add: update_star_def two_stars_def two_star_tree_def Let_def example_config_def
        accept_node_def accel_denominator_def atan2_def eval_nat_numeral)
  have u2: "update_star 2 example_config (1 / 20) two_star_tree 0
       [\<lparr>node_x = 0, node_y = 0, node_mass = 1, speed_x = 243 / 80, speed_y = 2,
             accel_x = 3 / 80, accel_y = 0\<rparr>,
           \<lparr>node_x = 1, node_y = 0, node_mass = 3, speed_x = 0, speed_y = 0,
             accel_x = 0, accel_y = 5\<rparr>] =
     Some [\<lparr>node_x = 0, node_y = 0, node_mass = 1, speed_x = 249 / 80, speed_y = 2,
             accel_x = 3 / 80, accel_y = 0\<rparr>,
           \<lparr>node_x = 1, node_y = 0, node_mass = 3, speed_x = 0, speed_y = 0,
             accel_x = 0, accel_y = 5\<rparr>]"
    by (simp add: update_star_def two_star_tree_def Let_def example_config_def
        accept_node_def accel_denominator_def atan2_def eval_nat_numeral)
  have u3: "update_star 2 example_config (1 / 20) two_star_tree (Suc 0)
       [\<lparr>node_x = 0, node_y = 0, node_mass = 1, speed_x = 243 / 80, speed_y = 2,
             accel_x = 3 / 80, accel_y = 0\<rparr>,
           \<lparr>node_x = 1, node_y = 0, node_mass = 3, speed_x = 0, speed_y = 0,
             accel_x = 0, accel_y = 5\<rparr>] =
     Some [\<lparr>node_x = 0, node_y = 0, node_mass = 1, speed_x = 243 / 80, speed_y = 2,
             accel_x = 3 / 80, accel_y = 0\<rparr>,
           \<lparr>node_x = 1, node_y = 0, node_mass = 3, speed_x = - (1 / 80), speed_y = 5,
             accel_x = - (1 / 80), accel_y = 0\<rparr>]"
    by (simp add: update_star_def two_star_tree_def Let_def example_config_def
        accept_node_def accel_denominator_def atan2_def eval_nat_numeral)
  have p: "run_pool 2 example_config (1 / 20) two_star_tree 2 [0, 0] two_stars =
     Some [\<lparr>node_x = 0, node_y = 0, node_mass = 1, speed_x = 249 / 80, speed_y = 2,
             accel_x = 3 / 80, accel_y = 0\<rparr>,
           \<lparr>node_x = 1, node_y = 0, node_mass = 3, speed_x = 0, speed_y = 0,
             accel_x = 0, accel_y = 5\<rparr>]"
    by (simp add: update_stars_job_def nth2(3) job_range2 upt_one u1 u2)
  have i: "update_stars 2 example_config (1 / 20) two_star_tree [0 ..< 2] two_stars =
     Some [\<lparr>node_x = 0, node_y = 0, node_mass = 1, speed_x = 243 / 80, speed_y = 2,
             accel_x = 3 / 80, accel_y = 0\<rparr>,
           \<lparr>node_x = 1, node_y = 0, node_mass = 3, speed_x = - (1 / 80), speed_y = 5,
             accel_x = - (1 / 80), accel_y = 0\<rparr>]"
    by (simp add: up2 u1 u3)
  have a1: "accel_phase 2 example_config (1 / 20) two_star_tree 2 [0, 0] two_stars =
     Some [\<lparr>node_x = 0, node_y = 0, node_mass = 1, speed_x = 249 / 80, speed_y = 2,
             accel_x = 3 / 80, accel_y = 0\<rparr>,
           \<lparr>node_x = 1, node_y = 0, node_mass = 3, speed_x = 0, speed_y = 0,
             accel_x = 0, accel_y = 5\<rparr>]"
    unfolding accel_phase_def p by simp
  have a2: "accel_phase 2 example_config (1 / 20) two_star_tree (Suc 0) [] two_stars =
     Some [\<lparr>node_x = 0, node_y = 0, node_mass = 1, speed_x = 243 / 80, speed_y = 2,
             accel_x = 3 / 80, accel_y = 0\<rparr>,
           \<lparr>node_x = 1, node_y = 0, node_mass = 3, speed_x = - (1 / 80), speed_y = 5,
             accel_x = - (1 / 80), accel_y = 0\<rparr>]"
    unfolding accel_phase_def nth2(3) i by simp
  show ?thesis
    using s by (simp add: world_frame_def two_star_world_def build2 ft a1 a2 move_star_def)
qed

section \<open>What a frame leaves unchanged\<close>

text \<open>
  Claim C10: a call of \<^verbatim>\<open>world_frame\<close> that returns leaves the length of the star array
  and the mass of the star at every index as they were, and does not change the number of
  cores; the other fields of a star may change. (A frame with stars at pairwise distinct
  positions returns, by \<open>frame_returns\<close>.)
\<close>

theorem frame_keeps_masses:
  assumes "world_frame fuel cfg order time w = Some w'"
  shows "length (stars w') = length (stars w) \<and>
         map node_mass (stars w') = map node_mass (stars w) \<and>
         cores w' = cores w"
proof -
  obtain b :: bstate and ss1 where ph: "accel_phase fuel cfg (clamp_frame_time cfg time) (b_quads b) (cores w) order (stars w) = Some ss1"
    and w': "stars w' = map (move_star (clamp_frame_time cfg time)) ss1" "cores w' = cores w"
    using world_frame_SomeD [OF assms] by blast
  have sn: "same_nodes (stars w) ss1" using ph by (rule accel_phase_same_nodes)
  have "map node_mass (stars w') = map node_mass ss1"
    by (simp add: w' move_star_def)
  then show ?thesis
    using sn same_nodes_mass [OF sn] w' by (simp add: same_nodes_def)
qed

text \<open>Claim C10 at the two-star world, for a frame of a twentieth of a second.\<close>

theorem frame_keeps_masses_witness:
  "map_option (\<lambda>w'. (length (stars w'), map node_mass (stars w'), cores w'))
     (world_frame 2 example_config [1, 0] (1 / 20) two_star_world) = Some (2, [1, 3], 2)"
proof -
  obtain w' where w': "world_frame 2 example_config [1, 0] (1 / 20) two_star_world = Some w'"
    using frame2 by blast
  show ?thesis
    using frame_keeps_masses [OF w'] unfolding w' by (simp add: world2)
qed

section \<open>A frame with no time elapsed\<close>

text \<open>
  On the inline path, and with a pool in which every worker runs exactly one round, a
  frame with a wall-clock delta of 0 that returns leaves the position (and the mass) of
  every star as it was, adds the stored half-step acceleration to the velocity and sets
  the stored acceleration to zero. \<^verbatim>\<open>min_fps\<close> is positive.
\<close>

lemma zero_frame:
  assumes "0 < min_fps cfg"
    and "1 < cores w \<longrightarrow> distinct order \<and> set order = {0 ..< cores w}"
    and "world_frame fuel cfg order 0 w = Some w'"
  shows "stars w' =
           map (\<lambda>s. s\<lparr>speed_x := speed_x s + accel_x s, speed_y := speed_y s + accel_y s,
                       accel_x := 0, accel_y := 0\<rparr>) (stars w)"
proof -
  have ft: "clamp_frame_time cfg 0 = 0" using assms(1) by (rule clamp_zero)
  obtain b :: bstate and ss1 where ph: "accel_phase fuel cfg 0 (b_quads b) (cores w) order (stars w) = Some ss1"
    and w': "stars w' = map (move_star 0) ss1"
    using world_frame_SomeD [OF assms(3)] unfolding ft by blast
  have "update_stars fuel cfg 0 (b_quads b) [0 ..< length (stars w)] (stars w) = Some ss1"
  proof (cases "1 < cores w")
    case True
    then have "run_pool fuel cfg 0 (b_quads b) (cores w) order (stars w) =
        update_stars fuel cfg 0 (b_quads b) [0 ..< length (stars w)] (stars w)"
      using assms(2) by (intro pool_is_inline) simp_all
    then show ?thesis using ph True by (simp add: accel_phase_def)
  next
    case False
    then show ?thesis using ph by (simp add: accel_phase_def)
  qed
  then have "ss1 = map (\<lambda>k. kick cfg 0 (the (walk fuel cfg (stars w) (b_quads b) k)) (stars w ! k))
                      [0 ..< length (stars w)]"
    by (rule update_stars_all)
  also have "\<dots> = map (\<lambda>s. s\<lparr>speed_x := speed_x s + accel_x s, speed_y := speed_y s + accel_y s,
                       accel_x := 0, accel_y := 0\<rparr>) (stars w)"
    unfolding kick_zero by (rule map_index)
  finally show ?thesis
    by (simp add: w' move_star_zero)
qed

text \<open>
  Claim C8, at the two-star world with two workers and a wall-clock delta of 0: in the
  schedule 0, 0 of the pool no round of worker 1 runs, and star 1 keeps its velocity
  \<open>(0, 0)\<close> and its stored acceleration \<open>(0, 5)\<close>, where the claim has the velocity
  \<open>(0, 5)\<close> and the stored acceleration zero. The positions stay as they were.
\<close>

theorem zero_frame_skips_worker:
  "pool_schedule 2 [0, 0] \<and>
   map_option stars (world_frame 2 example_config [0, 0] 0 two_star_world) =
     Some [\<lparr>node_x = 0, node_y = 0, node_mass = 1, speed_x = 3, speed_y = 2,
             accel_x = 0, accel_y = 0\<rparr>,
           \<lparr>node_x = 1, node_y = 0, node_mass = 3, speed_x = 0, speed_y = 0,
             accel_x = 0, accel_y = 5\<rparr>] \<and>
   map (\<lambda>s. s\<lparr>speed_x := speed_x s + accel_x s, speed_y := speed_y s + accel_y s,
               accel_x := 0, accel_y := 0\<rparr>) (stars two_star_world) =
     [\<lparr>node_x = 0, node_y = 0, node_mass = 1, speed_x = 3, speed_y = 2,
             accel_x = 0, accel_y = 0\<rparr>,
      \<lparr>node_x = 1, node_y = 0, node_mass = 3, speed_x = 0, speed_y = 5,
             accel_x = 0, accel_y = 0\<rparr>]"
proof -
  note s = schedule_twice
  have ft: "clamp_frame_time example_config 0 = 0"
    by (simp add: clamp_frame_time_def example_config_def)
  have u1: "update_star 2 example_config 0 two_star_tree 0 two_stars =
     Some [\<lparr>node_x = 0, node_y = 0, node_mass = 1, speed_x = 3, speed_y = 2,
             accel_x = 0, accel_y = 0\<rparr>,
           \<lparr>node_x = 1, node_y = 0, node_mass = 3, speed_x = 0, speed_y = 0,
             accel_x = 0, accel_y = 5\<rparr>]"
    by (simp add: update_star_def two_stars_def two_star_tree_def Let_def example_config_def
        accept_node_def accel_denominator_def atan2_def eval_nat_numeral)
  have u2: "update_star 2 example_config 0 two_star_tree 0
       [\<lparr>node_x = 0, node_y = 0, node_mass = 1, speed_x = 3, speed_y = 2,
             accel_x = 0, accel_y = 0\<rparr>,
           \<lparr>node_x = 1, node_y = 0, node_mass = 3, speed_x = 0, speed_y = 0,
             accel_x = 0, accel_y = 5\<rparr>] =
     Some [\<lparr>node_x = 0, node_y = 0, node_mass = 1, speed_x = 3, speed_y = 2,
             accel_x = 0, accel_y = 0\<rparr>,
           \<lparr>node_x = 1, node_y = 0, node_mass = 3, speed_x = 0, speed_y = 0,
             accel_x = 0, accel_y = 5\<rparr>]"
    by (simp add: update_star_def two_star_tree_def Let_def example_config_def
        accept_node_def accel_denominator_def atan2_def eval_nat_numeral)
  have p: "run_pool 2 example_config 0 two_star_tree 2 [0, 0] two_stars =
     Some [\<lparr>node_x = 0, node_y = 0, node_mass = 1, speed_x = 3, speed_y = 2,
             accel_x = 0, accel_y = 0\<rparr>,
           \<lparr>node_x = 1, node_y = 0, node_mass = 3, speed_x = 0, speed_y = 0,
             accel_x = 0, accel_y = 5\<rparr>]"
    by (simp add: update_stars_job_def nth2(3) job_range2 upt_one u1 u2)
  have a1: "accel_phase 2 example_config 0 two_star_tree 2 [0, 0] two_stars =
     Some [\<lparr>node_x = 0, node_y = 0, node_mass = 1, speed_x = 3, speed_y = 2,
             accel_x = 0, accel_y = 0\<rparr>,
           \<lparr>node_x = 1, node_y = 0, node_mass = 3, speed_x = 0, speed_y = 0,
             accel_x = 0, accel_y = 5\<rparr>]"
    unfolding accel_phase_def p by simp
  have f: "map_option stars (world_frame 2 example_config [0, 0] 0 two_star_world) =
     Some [\<lparr>node_x = 0, node_y = 0, node_mass = 1, speed_x = 3, speed_y = 2,
             accel_x = 0, accel_y = 0\<rparr>,
           \<lparr>node_x = 1, node_y = 0, node_mass = 3, speed_x = 0, speed_y = 0,
             accel_x = 0, accel_y = 5\<rparr>]"
    by (simp add: world_frame_def two_star_world_def build2 ft a1 move_star_def)
  show ?thesis
    using s f by (simp add: world2(1) two_stars_def)
qed
section \<open>Rounding to doubles\<close>

text \<open>
  How \<open>rd\<close> is computed at a number whose binary exponent \<open>k\<close> is known.
\<close>

lemma expoI:
  assumes "2 powi k \<le> \<bar>x\<bar>" "\<bar>x\<bar> < 2 powi (k + 1)"
  shows "expo x = max (k - 52) (- 1074)"
proof -
  have x: "0 < \<bar>x\<bar>" using assms(1) by (smt (verit) zero_less_power_int)
  have "\<lfloor>log 2 \<bar>x\<bar>\<rfloor> = k"
    using assms x powr_real_of_int' [of 2 k] powr_real_of_int' [of 2 "k + 1"]
    by (simp add: floor_log_eq_powr_iff)
  then show ?thesis by (simp add: expo_def)
qed

lemma rdI:
  assumes "2 powi k \<le> \<bar>x\<bar>" "\<bar>x\<bar> < 2 powi (k + 1)"
    and "round_even (x / 2 powi max (k - 52) (- 1074)) = n"
  shows "rd x = of_int n * 2 powi max (k - 52) (- 1074)"
proof -
  have x: "x \<noteq> 0" using assms(1) by (smt (verit) zero_less_power_int)
  show ?thesis using x assms(3) by (simp add: rd_def expoI [OF assms(1,2)])
qed

lemma round_even_upper: "real_of_int (round_even q) \<le> q + 1 / 2"
  unfolding round_even_def Let_def by (auto; linarith)

lemma round_even_lower: "q - 1 / 2 \<le> real_of_int (round_even q)"
  unfolding round_even_def Let_def by (auto; linarith)

lemma round_even_of_int [simp]: "round_even (of_int n) = n"
  by (simp add: round_even_def)

lemma round_even_abs_le:
  assumes "\<bar>q\<bar> \<le> of_int N"
  shows "\<bar>round_even q\<bar> \<le> N"
proof -
  have "real_of_int (round_even q) \<le> of_int N + 1 / 2" "- of_int N - 1 / 2 \<le> real_of_int (round_even q)"
    using round_even_upper [of q] round_even_lower [of q] assms by linarith+
  then have "round_even q \<le> N" "- N \<le> round_even q" by linarith+
  then show ?thesis by linarith
qed

lemma round_even_half:
  assumes "\<bar>q\<bar> \<le> 1 / 2"
  shows "round_even q = 0"
proof -
  have "\<lfloor>q\<rfloor> = 0 \<or> \<lfloor>q\<rfloor> = - 1"
  proof (cases "0 \<le> q")
    case True
    then have "\<lfloor>q\<rfloor> = 0" using assms by (intro floor_unique) simp_all
    then show ?thesis by simp
  next
    case False
    then have "\<lfloor>q\<rfloor> = - 1" using assms by (intro floor_unique) simp_all
    then show ?thesis by simp
  qed
  then show ?thesis
  proof
    assume "\<lfloor>q\<rfloor> = 0"
    then show ?thesis using assms by (simp add: round_even_def)
  next
    assume "\<lfloor>q\<rfloor> = - 1"
    then show ?thesis using assms by (simp add: round_even_def Let_def) linarith
  qed
qed

lemma expo_ge: "- 1074 \<le> expo x"
  by (simp add: expo_def)

lemma log_bounds:
  assumes "x \<noteq> 0"
  shows "2 powi \<lfloor>log 2 \<bar>x\<bar>\<rfloor> \<le> \<bar>x\<bar>" "\<bar>x\<bar> < 2 powi (\<lfloor>log 2 \<bar>x\<bar>\<rfloor> + 1)"
proof -
  have "0 < \<bar>x\<bar>" using assms by simp
  then have "2 powr real_of_int \<lfloor>log 2 \<bar>x\<bar>\<rfloor> \<le> \<bar>x\<bar> \<and> \<bar>x\<bar> < 2 powr (real_of_int \<lfloor>log 2 \<bar>x\<bar>\<rfloor> + 1)"
    using floor_log_eq_powr_iff [of "\<bar>x\<bar>" 2 "\<lfloor>log 2 \<bar>x\<bar>\<rfloor>"] by simp
  then show "2 powi \<lfloor>log 2 \<bar>x\<bar>\<rfloor> \<le> \<bar>x\<bar>" "\<bar>x\<bar> < 2 powi (\<lfloor>log 2 \<bar>x\<bar>\<rfloor> + 1)"
    using powr_real_of_int' [of 2 "\<lfloor>log 2 \<bar>x\<bar>\<rfloor>"] powr_real_of_int' [of 2 "\<lfloor>log 2 \<bar>x\<bar>\<rfloor> + 1"]
    by simp_all
qed

lemma expo_normal:
  assumes "x \<noteq> 0" "- 1074 < expo x"
  shows "2 powi (expo x + 52) \<le> \<bar>x\<bar>"
proof -
  have "expo x = \<lfloor>log 2 \<bar>x\<bar>\<rfloor> - 52" using assms(2) by (simp add: expo_def max_def split: if_splits)
  then show ?thesis using log_bounds(1) [OF assms(1)] by simp
qed

lemma rd_zero [simp]: "rd 0 = 0"
  by (simp add: rd_def)

lemma round_even_zero [simp]: "round_even 0 = 0"
  using round_even_of_int [of 0] by simp

lemma rd_form: "rd x = of_int (round_even (x / 2 powi expo x)) * 2 powi expo x"
  by (simp add: rd_def)

lemma rd_abs_le:
  assumes "\<bar>x\<bar> \<le> 2 powi t" "- 1074 \<le> t"
  shows "\<bar>rd x\<bar> \<le> 2 powi t"
proof (cases "x = 0")
  case True
  then show ?thesis by simp
next
  case False
  let ?e = "expo x"
  have et: "?e \<le> t"
  proof (rule ccontr)
    assume "\<not> ?e \<le> t"
    then have lt: "t < ?e" by simp
    then have "2 powi (?e + 52) \<le> \<bar>x\<bar>" using expo_normal [OF False] assms(2) by simp
    moreover have "(2::real) powi t < 2 powi (?e + 52)"
      using lt by (intro power_int_strict_increasing) simp_all
    ultimately show False using assms(1) by linarith
  qed
  have p: "(2::real) powi t = 2 powi (t - ?e) * 2 powi ?e"
    using power_int_add [of "2::real" "t - ?e" ?e] by simp
  have n: "(2::real) powi (t - ?e) = of_int (2 ^ nat (t - ?e))"
    using et by (simp add: power_int_nonneg_exp)
  have "\<bar>x / 2 powi ?e\<bar> \<le> 2 powi (t - ?e)"
    using assms(1) by (simp add: p field_simps)
  then have "\<bar>round_even (x / 2 powi ?e)\<bar> \<le> 2 ^ nat (t - ?e)"
    unfolding n by (rule round_even_abs_le)
  then have "\<bar>real_of_int (round_even (x / 2 powi ?e))\<bar> \<le> 2 powi (t - ?e)"
    unfolding n by linarith
  then have "\<bar>real_of_int (round_even (x / 2 powi ?e))\<bar> * 2 powi ?e \<le> 2 powi (t - ?e) * 2 powi ?e"
    by (intro mult_right_mono) simp_all
  then show ?thesis
    unfolding p rd_form by (simp add: abs_mult)
qed

lemma rd_tiny:
  assumes "\<bar>x\<bar> \<le> 2 powi (- 1075)"
  shows "rd x = 0"
proof (cases "x = 0")
  case True
  then show ?thesis by simp
next
  case False
  have e: "expo x = - 1074"
  proof (rule ccontr)
    assume "expo x \<noteq> - 1074"
    then have lt: "- 1074 < expo x" using expo_ge [of x] by simp
    then have "2 powi (expo x + 52) \<le> \<bar>x\<bar>" using expo_normal [OF False] by simp
    moreover have "(2::real) powi (- 1075) < 2 powi (expo x + 52)"
      using lt by (intro power_int_strict_increasing) simp_all
    ultimately show False using assms by linarith
  qed
  have "(2::real) powi (- 1075) = 2 powi (- 1074) / 2"
    using power_int_add [of "2::real" "- 1074" "- 1"] by simp
  then have "\<bar>x / 2 powi (- 1074)\<bar> \<le> 1 / 2"
    using assms by (simp add: field_simps)
  then have "round_even (x / 2 powi (- 1074)) = 0" by (rule round_even_half)
  then show ?thesis by (simp add: rd_form e)
qed

text \<open>
  Halving a double that is at most \<open>2 ^ (k + 1)\<close> times the smallest positive double
  gives at most \<open>2 ^ k\<close> times that double, and halving the smallest positive double
  gives zero.
\<close>

lemma rd_half_le:
  assumes "\<bar>x\<bar> \<le> 2 powi (int (Suc k) - 1074)"
  shows "\<bar>rd (x / 2)\<bar> \<le> 2 powi (int k - 1074)"
proof -
  have "(2::real) powi (int (Suc k) - 1074) = 2 powi (int k - 1074) * 2"
    using power_int_add [of "2::real" "int k - 1074" 1] by (simp add: algebra_simps)
  then have "\<bar>x / 2\<bar> \<le> 2 powi (int k - 1074)" using assms by simp
  then show ?thesis by (rule rd_abs_le) simp
qed

lemma rd_half_zero:
  assumes "\<bar>x\<bar> \<le> 2 powi (int 0 - 1074)"
  shows "rd (x / 2) = 0"
proof -
  have "(2::real) powi (- 1074) = 2 powi (- 1075) * 2"
    using power_int_add [of "2::real" "- 1075" 1] by simp
  then have "\<bar>x / 2\<bar> \<le> 2 powi (- 1075)" using assms by simp
  then show ?thesis by (rule rd_tiny)
qed


text \<open>
  The result of a rounding is a multiple of \<open>2 ^ -1074\<close>. Above the subnormal range the
  relative error of a rounding is at most \<open>2 ^ -53\<close>; the sum of two doubles in the
  subnormal range is a double.
\<close>

lemma rd_multiple: "\<exists>n::int. rd x = of_int n * 2 powi (- 1074)"
proof -
  let ?e = "expo x"
  define u :: real where "u = 2 powi (- 1074)"
  have e: "0 \<le> ?e + 1074" using expo_ge [of x] by linarith
  have "(2::real) powi ?e = 2 powi (?e + 1074) * u"
    unfolding u_def using power_int_add [of "2::real" "?e + 1074" "- 1074"] by simp
  also have "(2::real) powi (?e + 1074) = of_int (2 ^ nat (?e + 1074))"
    using e by (simp add: power_int_nonneg_exp)
  finally have "rd x = of_int (round_even (x / 2 powi ?e) * 2 ^ nat (?e + 1074)) * u"
    by (simp add: rd_form)
  then show ?thesis unfolding u_def by blast
qed

lemma rd_rel:
  assumes "2 powi (- 1022) \<le> \<bar>x\<bar>"
  shows "\<bar>rd x - x\<bar> \<le> 2 powi (- 53) * \<bar>x\<bar>"
proof -
  have x: "x \<noteq> 0" using assms by (smt (verit) zero_less_power_int)
  let ?k = "\<lfloor>log 2 \<bar>x\<bar>\<rfloor>"
  have k: "- 1022 \<le> ?k"
  proof (rule ccontr)
    assume "\<not> - 1022 \<le> ?k"
    then have "?k + 1 \<le> - 1022" by linarith
    then have "(2::real) powi (?k + 1) \<le> 2 powi (- 1022)"
      by (intro power_int_increasing) simp_all
    then show False using log_bounds(2) [OF x] assms by linarith
  qed
  then have e: "expo x = ?k - 52" unfolding expo_def by linarith
  let ?e = "expo x"
  let ?q = "x / 2 powi ?e"
  have p: "(0::real) < 2 powi ?e" by simp
  have "\<bar>real_of_int (round_even ?q) - ?q\<bar> \<le> 1 / 2"
    using round_even_upper [of ?q] round_even_lower [of ?q] by linarith
  then have "\<bar>real_of_int (round_even ?q) - ?q\<bar> * 2 powi ?e \<le> 1 / 2 * 2 powi ?e"
    by (intro mult_right_mono) simp_all
  moreover have "\<bar>real_of_int (round_even ?q) - ?q\<bar> * 2 powi ?e = \<bar>rd x - x\<bar>"
  proof -
    have "rd x - x = (real_of_int (round_even ?q) - ?q) * 2 powi ?e"
      by (simp add: rd_form algebra_simps)
    then show ?thesis by (simp add: abs_mult)
  qed
  ultimately have a: "\<bar>rd x - x\<bar> \<le> 2 powi ?e / 2" by simp
  have "(2::real) powi ?k = 2 powi 53 * (2 powi ?e / 2)"
    using power_int_add [of "2::real" 52 ?e] by (simp add: e)
  then have "2 powi 53 * (2 powi ?e / 2) \<le> \<bar>x\<bar>" using log_bounds(1) [OF x] by simp
  then have "2 powi ?e / 2 \<le> 2 powi (- 53) * \<bar>x\<bar>"
    by (simp add: power_int_minus_divide field_simps)
  then show ?thesis using a by linarith
qed

lemma rd_small_exact:
  assumes "x = of_int n * 2 powi (- 1074)" "\<bar>x\<bar> < 2 powi (- 1022)"
  shows "rd x = x"
proof (cases "x = 0")
  case True
  then show ?thesis by simp
next
  case False
  have e: "expo x = - 1074"
  proof (rule ccontr)
    assume "expo x \<noteq> - 1074"
    then have lt: "- 1074 < expo x" using expo_ge [of x] by linarith
    then have "2 powi (expo x + 52) \<le> \<bar>x\<bar>" using expo_normal [OF False] by blast
    moreover have "(2::real) powi (- 1022) \<le> 2 powi (expo x + 52)"
      using lt by (intro power_int_increasing) simp_all
    ultimately show False using assms(2) by linarith
  qed
  define u :: real where "u = 2 powi (- 1074)"
  have u: "u \<noteq> 0" unfolding u_def by simp
  have "x / u = of_int n" using assms(1) u unfolding u_def [symmetric] by simp
  then have "of_int (round_even (x / u)) * u = x"
    using assms(1) unfolding u_def [symmetric] by simp
  then show ?thesis unfolding rd_form e u_def .
qed

lemma rd_sum_rel:
  assumes "a = of_int n * 2 powi (- 1074)" "b = of_int m * 2 powi (- 1074)"
  shows "\<bar>rd (a + b) - (a + b)\<bar> \<le> 2 powi (- 53) * \<bar>a + b\<bar>"
proof (cases "2 powi (- 1022) \<le> \<bar>a + b\<bar>")
  case True
  then show ?thesis by (rule rd_rel)
next
  case False
  have "a + b = of_int (n + m) * 2 powi (- 1074)"
    unfolding assms by (simp only: of_int_add distrib_right)
  moreover have "\<bar>a + b\<bar> < 2 powi (- 1022)" using False by linarith
  ultimately have "rd (a + b) = a + b" by (rule rd_small_exact)
  then show ?thesis by simp
qed

text \<open>
  Adding \<open>n\<close> positive doubles from the left gives their sum up to the relative error
  \<open>(1 + 2 ^ -53) ^ n - 1\<close>, which is at most \<open>n * 2 ^ -52\<close> for any number of stars
  that a C \<^verbatim>\<open>int\<close> can hold.
\<close>

lemma is_double_grid:
  assumes "is_double m"
  shows "\<exists>n::int. m = of_int n * 2 powi (- 1074)"
  using rd_multiple [of m] assms unfolding is_double_def by simp

lemma fl_sum_bound:
  assumes "\<forall>m \<in> set ms. 0 < m \<and> is_double m" and v: "v = 2 powi (- 53)"
  shows "\<bar>fl_sum ms - sum_list ms\<bar> \<le> ((1 + v) ^ length ms - 1) * sum_list ms \<and>
         (\<exists>n::int. fl_sum ms = of_int n * 2 powi (- 1074))"
  using assms(1)
proof (induction ms rule: rev_induct)
  case Nil
  have "(0::real) = of_int 0 * 2 powi (- 1074)" by simp
  then show ?case unfolding fl_sum_def by (simp del: power_int_minus) 
next
  case (snoc m ms)
  let ?s = "fl_sum ms" and ?T = "sum_list ms"
  let ?a = "(1 + v) ^ length ms - 1"
  have v0: "0 \<le> v" unfolding v by simp
  have a0: "0 \<le> ?a" using v0 by simp
  have T0: "0 \<le> ?T" using snoc.prems by (intro sum_list_nonneg) (auto intro: less_imp_le)
  have m0: "0 < m" and md: "is_double m" using snoc.prems by simp_all
  have ih: "\<bar>?s - ?T\<bar> \<le> ?a * ?T" and "\<exists>n::int. ?s = of_int n * 2 powi (- 1074)"
    using snoc.IH snoc.prems by simp_all
  then obtain n :: int where n: "?s = of_int n * 2 powi (- 1074)" by blast
  obtain k :: int where k: "m = of_int k * 2 powi (- 1074)" using is_double_grid [OF md] by blast
  have fl: "fl_sum (ms @ [m]) = rd (?s + m)" by (simp add: fl_sum_def)
  have r: "\<bar>rd (?s + m) - (?s + m)\<bar> \<le> v * \<bar>?s + m\<bar>"
    unfolding v using n k by (rule rd_sum_rel)
  have y: "\<bar>?s + m\<bar> \<le> ?a * ?T + (?T + m)" using ih m0 T0 by linarith
  have "v * \<bar>?s + m\<bar> \<le> v * (?a * ?T + (?T + m))"
    using y v0 by (rule mult_left_mono)
  then have "\<bar>rd (?s + m) - (?T + m)\<bar> \<le> v * (?a * ?T + (?T + m)) + ?a * ?T"
    using r ih by linarith
  also have "\<dots> = ?a * (1 + v) * ?T + v * (?T + m)" by (simp add: algebra_simps)
  also have "\<dots> \<le> ?a * (1 + v) * (?T + m) + v * (?T + m)"
  proof -
    have "0 \<le> ?a * (1 + v)" using a0 v0 by simp
    moreover have "?T \<le> ?T + m" using m0 by simp
    ultimately have "?a * (1 + v) * ?T \<le> ?a * (1 + v) * (?T + m)" by (rule mult_left_mono [rotated])
    then show ?thesis by simp
  qed
  also have "\<dots> = ((1 + v) ^ length (ms @ [m]) - 1) * sum_list (ms @ [m])"
    by (simp add: algebra_simps)
  finally have "\<bar>fl_sum (ms @ [m]) - sum_list (ms @ [m])\<bar> \<le>
      ((1 + v) ^ length (ms @ [m]) - 1) * sum_list (ms @ [m])"
    unfolding fl by simp
  moreover have "\<exists>n::int. fl_sum (ms @ [m]) = of_int n * 2 powi (- 1074)"
    unfolding fl by (rule rd_multiple)
  ultimately show ?case by blast
qed

lemma power_bound:
  fixes v :: real
  assumes "0 \<le> v" "2 * real n * v \<le> 1"
  shows "(1 + v) ^ n - 1 \<le> 2 * real n * v"
  using assms(2)
proof (induction n)
  case 0
  then show ?case by simp
next
  case (Suc n)
  have le: "2 * real n * v \<le> 1"
  proof -
    have "2 * real n * v \<le> 2 * real (Suc n) * v" using assms(1) by (simp add: mult_right_mono)
    then show ?thesis using Suc.prems by linarith
  qed
  then have ih: "(1 + v) ^ n - 1 \<le> 2 * real n * v" by (rule Suc.IH)
  have "(1 + v) ^ Suc n - 1 = ((1 + v) ^ n - 1) * (1 + v) + v" by (simp add: algebra_simps)
  also have "\<dots> \<le> 2 * real n * v * (1 + v) + v"
    using ih assms(1) by (simp add: mult_right_mono)
  also have "\<dots> = 2 * real n * v + v * (2 * real n * v + 1)" by (simp add: algebra_simps)
  also have "\<dots> \<le> 2 * real n * v + v * 2"
  proof -
    have "v * (2 * real n * v + 1) \<le> v * 2" using le assms(1) by (intro mult_left_mono) simp_all
    then show ?thesis by simp
  qed
  also have "\<dots> = 2 * real (Suc n) * v" by (simp add: algebra_simps)
  finally show ?case .
qed

lemma fl_sum_tolerance:
  assumes "\<forall>m \<in> set ms. 0 < m \<and> is_double m" "length ms \<le> 2147483647"
  shows "\<bar>fl_sum ms - sum_list ms\<bar> \<le> real (length ms) * 2 powi (- 52) * sum_list ms"
proof -
  define v :: real where "v = 2 powi (- 53)"
  have e: "(2::real) powi (- 52) = 2 * v"
    unfolding v_def using power_int_add [of "2::real" "- 53" 1] by simp
  have v0: "0 \<le> v" unfolding v_def by simp
  have "real (length ms) \<le> 2147483647" using assms(2) by simp
  then have "real (length ms) * (2 * v) \<le> 2147483647 * (2 * v)"
    using v0 by (intro mult_right_mono) simp_all
  moreover have "2147483647 * (2 * v) \<le> 1" unfolding v_def by (simp add: power_int_minus_divide)
  ultimately have "2 * real (length ms) * v \<le> 1" by linarith
  then have p: "(1 + v) ^ length ms - 1 \<le> 2 * real (length ms) * v"
    using v0 by (intro power_bound)
  have T0: "0 \<le> sum_list ms" using assms(1) by (intro sum_list_nonneg) (auto intro: less_imp_le)
  have "\<bar>fl_sum ms - sum_list ms\<bar> \<le> ((1 + v) ^ length ms - 1) * sum_list ms"
    using fl_sum_bound [OF assms(1) v_def] by blast
  also have "\<dots> \<le> 2 * real (length ms) * v * sum_list ms"
    using p T0 by (rule mult_right_mono)
  also have "\<dots> = real (length ms) * (2 * v) * sum_list ms" by simp
  finally show ?thesis unfolding e .
qed
section \<open>The build in doubles keeps the shape of the arena\<close>

lemma d_add_star_fields:
  assumes "d_add_star s q = Some q'"
  shows "quad_size q' = quad_size q" "center_x q' = center_x q" "center_y q' = center_y q"
    "children q' = children q" "quad_mass q' = rd (quad_mass q + node_mass s)"
  using assms by (auto simp: d_add_star_def Let_def split: if_splits)

lemma d_make_quad_fields:
  assumes "d_make_quad ss qs parent qd old slot = Some nq"
  shows "quad_size nq = rd (quad_size parent / 2)"
    "quad_mass nq = ptr_mass ss qs old"
    "\<exists>k < 4. children nq = (children slot)(k := old)"
proof -
  let ?new = "slot\<lparr>quad_x := ptr_x ss qs old, quad_y := ptr_y ss qs old,
      quad_mass := ptr_mass ss qs old, quad_size := rd (quad_size parent / 2),
      center_x := rd (center_x parent + (if bit qd 0 then rd (quad_size parent / 4) else - rd (quad_size parent / 4))),
      center_y := rd (center_y parent + (if bit qd 1 then rd (quad_size parent / 4) else - rd (quad_size parent / 4)))\<rparr>"
  have nq: "nq = set_child ?new (get_quadrant ?new (ptr_x ss qs old) (ptr_y ss qs old)) old"
    using assms by (simp add: d_make_quad_def Let_def split: if_splits)
  show "quad_size nq = rd (quad_size parent / 2)" "quad_mass nq = ptr_mass ss qs old"
    by (simp_all add: nq)
  have "get_quadrant ?new (ptr_x ss qs old) (ptr_y ss qs old) < 4" by (rule get_quadrant_lt4)
  then show "\<exists>k < 4. children nq = (children slot)(k := old)"
    unfolding nq by (intro exI [of _ "get_quadrant ?new (ptr_x ss qs old) (ptr_y ss qs old)"]) simp
qed

lemma d_insert_step_cases:
  assumes step: "d_insert_step ss i j st = Inr (st', p)" and j: "j < quad_count st"
  obtains (empty) q k where "d_add_star (ss ! i) (b_quads st j) = Some q" "k < 4"
      "children (b_quads st j) k = Null"
      "st' = st\<lparr>b_quads := (b_quads st)(j := set_child q k (StarP i))\<rparr>" "p = StarP i"
  | (split) q k c nq where "d_add_star (ss ! i) (b_quads st j) = Some q" "k < 4"
      "children (b_quads st j) k = c" "c \<noteq> Null" "ptr_size (b_quads st) c = 0"
      "quad_count st < quad_capacity ss"
      "d_make_quad ss ((b_quads st)(j := q)) q k c (b_quads st (quad_count st)) = Some nq"
      "st' = \<lparr>b_quads = (b_quads st)(quad_count st := nq, j := set_child q k (QuadP (quad_count st))),
              quad_count = quad_count st + 1\<rparr>"
      "p = QuadP (quad_count st)"
  | (descend) q k c where "d_add_star (ss ! i) (b_quads st j) = Some q" "k < 4"
      "children (b_quads st j) k = c" "c \<noteq> Null" "ptr_size (b_quads st) c \<noteq> 0"
      "st' = st\<lparr>b_quads := (b_quads st)(j := q)\<rparr>" "p = c"
proof -
  obtain q where q: "d_add_star (ss ! i) (b_quads st j) = Some q"
    using step by (auto simp: d_insert_step_def split: option.splits)
  note f = d_add_star_fields [OF q]
  let ?k = "get_quadrant q (node_x (ss ! i)) (node_y (ss ! i))"
  let ?c = "children (b_quads st j) ?k"
  have k: "?k < 4" by (rule get_quadrant_lt4)
  have sz: "ptr_size ((b_quads st)(j := q)) ?c = ptr_size (b_quads st) ?c"
    by (cases ?c) (simp_all add: f)
  show thesis
  proof (cases "?c = Null")
    case True
    then show ?thesis using step q k
      by (intro empty [of q ?k]) (auto simp: d_insert_step_def Let_def f)
  next
    case nn: False
    show ?thesis
    proof (cases "ptr_size (b_quads st) ?c = 0")
      case z: True
      have cap: "quad_count st < quad_capacity ss"
        using step q nn z sz by (simp add: d_insert_step_def Let_def f split: if_splits)
      have jn: "j \<noteq> quad_count st" using j by simp
      obtain nq where nq: "d_make_quad ss ((b_quads st)(j := q)) q ?k ?c (b_quads st (quad_count st)) = Some nq"
        using step q nn z sz cap jn by (auto simp: d_insert_step_def Let_def f split: option.splits)
      show ?thesis
        using step q nn z sz cap jn nq k
        by (intro split [of q ?k ?c nq]) (auto simp: d_insert_step_def Let_def f fun_upd_twist)
    next
      case False
      then show ?thesis using step q nn sz k
        by (intro descend [of q ?k ?c]) (auto simp: d_insert_step_def Let_def f)
    qed
  qed
qed

lemma d_tree_okD:
  assumes "d_tree_ok st"
  shows "0 < quad_count st"
    and "\<And>j. quad_count st \<le> j \<Longrightarrow> b_quads st j = zero_quad"
    and "\<And>j s c. j < quad_count st \<Longrightarrow> children (b_quads st j) s = QuadP c \<Longrightarrow>
           0 < c \<and> c < quad_count st \<and> quad_size (b_quads st c) = rd (quad_size (b_quads st j) / 2)"
  using assms unfolding d_tree_ok_def by blast+

lemma d_tree_okI:
  assumes "0 < quad_count st"
    and "\<And>j. quad_count st \<le> j \<Longrightarrow> b_quads st j = zero_quad"
    and "\<And>j s c. j < quad_count st \<Longrightarrow> children (b_quads st j) s = QuadP c \<Longrightarrow>
           0 < c \<and> c < quad_count st \<and> quad_size (b_quads st c) = rd (quad_size (b_quads st j) / 2)"
  shows "d_tree_ok st"
  using assms unfolding d_tree_ok_def by blast

lemma d_step_sizes:
  assumes step: "d_insert_step ss i j st = Inr (st', p)" and j: "j < quad_count st"
  shows "quad_count st \<le> quad_count st'"
    and "\<And>a. a < quad_count st \<Longrightarrow> quad_size (b_quads st' a) = quad_size (b_quads st a)"
proof -
  show "quad_count st \<le> quad_count st'"
    using step j by (cases rule: d_insert_step_cases) simp_all
  fix a assume a: "a < quad_count st"
  show "quad_size (b_quads st' a) = quad_size (b_quads st a)"
    using step j
  proof (cases rule: d_insert_step_cases)
    case (empty q k)
    then show ?thesis using d_add_star_fields(1) [OF empty(1)] by simp
  next
    case (split q k c nq)
    then show ?thesis using d_add_star_fields(1) [OF split(1)] a by simp
  next
    case (descend q k c)
    then show ?thesis using d_add_star_fields(1) [OF descend(1)] by simp
  qed
qed

lemma d_step_tree_ok:
  assumes step: "d_insert_step ss i j st = Inr (st', p)" and j: "j < quad_count st"
    and ok: "d_tree_ok st"
  shows "d_tree_ok st'"
  using step j
proof (cases rule: d_insert_step_cases)
  case (empty q k)
  note f = d_add_star_fields [OF empty(1)]
  have sz: "quad_size (b_quads st' a) = quad_size (b_quads st a)" for a
    using empty(4) f by simp
  show ?thesis
  proof (rule d_tree_okI)
    show "0 < quad_count st'" using d_tree_okD(1) [OF ok] empty(4) by simp
    show "b_quads st' a = zero_quad" if "quad_count st' \<le> a" for a
      using that d_tree_okD(2) [OF ok, of a] j empty(4) by simp
    fix a s c assume a: "a < quad_count st'" and ch: "children (b_quads st' a) s = QuadP c"
    have "children (b_quads st a) s = QuadP c"
      using ch empty(4) f by (cases "a = j") (simp_all split: if_splits)
    moreover have "a < quad_count st" using a empty(4) by simp
    ultimately have "0 < c \<and> c < quad_count st \<and> quad_size (b_quads st c) = rd (quad_size (b_quads st a) / 2)"
      using d_tree_okD(3) [OF ok] by blast
    moreover have "quad_count st' = quad_count st" using empty(4) by simp
    ultimately show "0 < c \<and> c < quad_count st' \<and> quad_size (b_quads st' c) = rd (quad_size (b_quads st' a) / 2)"
      by (simp add: sz)
  qed
next
  case (descend q k c)
  note f = d_add_star_fields [OF descend(1)]
  have sz: "quad_size (b_quads st' a) = quad_size (b_quads st a)" for a
    using descend(6) f by simp
  show ?thesis
  proof (rule d_tree_okI)
    show "0 < quad_count st'" using d_tree_okD(1) [OF ok] descend(6) by simp
    show "b_quads st' a = zero_quad" if "quad_count st' \<le> a" for a
      using that d_tree_okD(2) [OF ok, of a] j descend(6) by simp
    fix a s c' assume a: "a < quad_count st'" and ch: "children (b_quads st' a) s = QuadP c'"
    have "children (b_quads st a) s = QuadP c'"
      using ch descend(6) f by (cases "a = j") simp_all
    moreover have "a < quad_count st" using a descend(6) by simp
    ultimately have "0 < c' \<and> c' < quad_count st \<and> quad_size (b_quads st c') = rd (quad_size (b_quads st a) / 2)"
      using d_tree_okD(3) [OF ok] by blast
    moreover have "quad_count st' = quad_count st" using descend(6) by simp
    ultimately show "0 < c' \<and> c' < quad_count st' \<and> quad_size (b_quads st' c') = rd (quad_size (b_quads st' a) / 2)"
      by (simp add: sz)
  qed
next
  case (split q k c nq)
  note f = d_add_star_fields [OF split(1)]
  note m = d_make_quad_fields [OF split(7)]
  let ?n = "quad_count st"
  have jn: "j \<noteq> ?n" using j by simp
  have zn: "b_quads st ?n = zero_quad" using d_tree_okD(2) [OF ok, of ?n] by simp
  have szo: "quad_size (b_quads st' a) = quad_size (b_quads st a)" if "a \<noteq> ?n" for a
    using split(8) f that by simp
  have szn: "quad_size (b_quads st' ?n) = rd (quad_size (b_quads st j) / 2)"
    using split(8) jn m(1) f by simp
  have cnt: "quad_count st' = ?n + 1" using split(8) by simp
  obtain k' where k': "k' < 4" "children nq = (\<lambda>_. Null)(k' := c)"
    using m(3) by (auto simp: zn zero_quad_def)
  show ?thesis
  proof (rule d_tree_okI)
    show "0 < quad_count st'" using split(8) by simp
    show "b_quads st' a = zero_quad" if "quad_count st' \<le> a" for a
      using that d_tree_okD(2) [OF ok, of a] j split(8) by simp
    fix a s c' assume a: "a < quad_count st'" and ch: "children (b_quads st' a) s = QuadP c'"
    consider (new) "a = ?n" | (cur) "a = j" | (other) "a \<noteq> ?n" "a \<noteq> j" by blast
    then show "0 < c' \<and> c' < quad_count st' \<and> quad_size (b_quads st' c') = rd (quad_size (b_quads st' a) / 2)"
    proof cases
      case new
      have cc: "c = QuadP c'" using ch new split(8) jn k'(2) by (simp split: if_splits)
      then have old: "0 < c' \<and> c' < ?n \<and> quad_size (b_quads st c') = rd (quad_size (b_quads st j) / 2)"
        using d_tree_okD(3) [OF ok j, of k c'] split(3) by simp
      have z: "quad_size (b_quads st c') = 0" using split(5) cc by simp
      have "quad_size (b_quads st' c') = 0" using szo [of c'] old z by simp
      moreover have "quad_size (b_quads st' ?n) = 0" using szn old z by simp
      ultimately show ?thesis using old new cnt by simp
    next
      case cur
      show ?thesis
      proof (cases "s = k")
        case True
        then have "c' = ?n" using ch cur split(8) by simp
        then show ?thesis using d_tree_okD(1) [OF ok] cnt szn szo [of j] jn cur by simp
      next
        case False
        then have "children (b_quads st j) s = QuadP c'" using ch cur split(8) f by simp
        then have old: "0 < c' \<and> c' < ?n \<and> quad_size (b_quads st c') = rd (quad_size (b_quads st j) / 2)"
          using d_tree_okD(3) [OF ok j] by blast
        then show ?thesis using szo [of c'] szo [of j] jn cur cnt by simp
      qed
    next
      case other
      then have "children (b_quads st a) s = QuadP c'" using ch split(8) by simp
      moreover have "a < ?n" using a other cnt by simp
      ultimately have old: "0 < c' \<and> c' < ?n \<and> quad_size (b_quads st c') = rd (quad_size (b_quads st a) / 2)"
        using d_tree_okD(3) [OF ok] by blast
      then show ?thesis using szo [of c'] szo [of a] other cnt by simp
    qed
  qed
qed

lemma d_step_next:
  assumes step: "d_insert_step ss i j st = Inr (st', p)" and j: "j < quad_count st"
    and ok: "d_tree_ok st"
  shows "p = StarP i \<or>
     (\<exists>c. p = QuadP c \<and> 0 < c \<and> c < quad_count st' \<and>
          quad_size (b_quads st' c) = rd (quad_size (b_quads st j) / 2))"
  using step j
proof (cases rule: d_insert_step_cases)
  case (empty q k)
  then show ?thesis by simp
next
  case (split q k c nq)
  have "quad_size (b_quads st' (quad_count st)) = rd (quad_size (b_quads st j) / 2)"
    using split(8) j d_make_quad_fields(1) [OF split(7)] d_add_star_fields(1) [OF split(1)] by simp
  then show ?thesis using split(8,9) d_tree_okD(1) [OF ok] by simp
next
  case (descend q k c)
  obtain c' where c: "c = QuadP c'" using descend(5) by (cases c) simp_all
  have old: "0 < c' \<and> c' < quad_count st \<and> quad_size (b_quads st c') = rd (quad_size (b_quads st j) / 2)"
    using d_tree_okD(3) [OF ok j, of k c'] descend(3) c by simp
  have "quad_size (b_quads st' c') = quad_size (b_quads st c')"
    using descend(6) d_add_star_fields(1) [OF descend(1)] by simp
  then show ?thesis using old c descend(6,7) by simp
qed

section \<open>The build in doubles returns\<close>

text \<open>
  The size of the root is a finite double, less than \<open>2 ^ 1024\<close>, which is \<open>2 ^ 2098\<close>
  times the smallest positive double. A descent halves the size at every pass, so after
  2098 passes the size is at most the smallest positive double, and the next quad has the
  size zero.
\<close>

lemma d_insert_star_returns:
  assumes "d_tree_ok st" "j < quad_count st"
    and "\<bar>quad_size (b_quads st j)\<bar> \<le> 2 powi (int k - 1074)" "k < fuel"
  shows "d_insert_star fuel ss i j st \<noteq> None"
  using assms
proof (induction k arbitrary: fuel j st)
  case 0
  obtain f where fuel: "fuel = Suc f" using 0(4) by (cases fuel) simp_all
  show ?case
  proof (cases "d_insert_step ss i j st")
    case (Inl e)
    then show ?thesis by (simp add: fuel)
  next
    case (Inr r)
    obtain st' p where r: "r = (st', p)" by (cases r)
    note step = Inr [unfolded r]
    from d_step_next [OF step 0(2,1)] show ?thesis
    proof
      assume "p = StarP i"
      then show ?thesis using step by (simp add: fuel)
    next
      assume "\<exists>c. p = QuadP c \<and> 0 < c \<and> c < quad_count st' \<and>
          quad_size (b_quads st' c) = rd (quad_size (b_quads st j) / 2)"
      then obtain c where c: "p = QuadP c" "quad_size (b_quads st' c) = rd (quad_size (b_quads st j) / 2)"
        by blast
      have "quad_size (b_quads st' c) = 0" using c(2) rd_half_zero [OF 0(3)] by simp
      then show ?thesis using step c(1) by (simp add: fuel)
    qed
  qed
next
  case (Suc k)
  obtain f where fuel: "fuel = Suc f" using Suc.prems(4) by (cases fuel) simp_all
  show ?case
  proof (cases "d_insert_step ss i j st")
    case (Inl e)
    then show ?thesis by (simp add: fuel)
  next
    case (Inr r)
    obtain st' p where r: "r = (st', p)" by (cases r)
    note step = Inr [unfolded r]
    have ok': "d_tree_ok st'" using step Suc.prems(2,1) by (rule d_step_tree_ok)
    from d_step_next [OF step Suc.prems(2,1)] show ?thesis
    proof
      assume "p = StarP i"
      then show ?thesis using step by (simp add: fuel)
    next
      assume "\<exists>c. p = QuadP c \<and> 0 < c \<and> c < quad_count st' \<and>
          quad_size (b_quads st' c) = rd (quad_size (b_quads st j) / 2)"
      then obtain c where c: "p = QuadP c" "c < quad_count st'"
        "quad_size (b_quads st' c) = rd (quad_size (b_quads st j) / 2)"
        by blast
      have "\<bar>quad_size (b_quads st' c)\<bar> \<le> 2 powi (int k - 1074)"
        unfolding c(3) using Suc.prems(3) by (rule rd_half_le)
      moreover have "k < f" using Suc.prems(4) fuel by simp
      ultimately have "d_insert_star f ss i c st' \<noteq> None"
        using Suc.IH [OF ok' c(2)] by blast
      then show ?thesis using step c(1) by (simp add: fuel)
    qed
  qed
qed

lemma d_insert_star_inv:
  assumes "d_insert_star fuel ss i j st = Some (Inr (st', p))" "d_tree_ok st" "j < quad_count st"
  shows "d_tree_ok st' \<and> quad_count st \<le> quad_count st' \<and>
         (\<forall>a < quad_count st. quad_size (b_quads st' a) = quad_size (b_quads st a))"
  using assms
proof (induction fuel arbitrary: j st)
  case 0
  then show ?case by simp
next
  case (Suc fuel)
  obtain st1 p1 where step: "d_insert_step ss i j st = Inr (st1, p1)"
    using Suc.prems(1) by (cases "d_insert_step ss i j st") (auto split: prod.splits)
  have ok1: "d_tree_ok st1" using step Suc.prems(3,2) by (rule d_step_tree_ok)
  note sz = d_step_sizes [OF step Suc.prems(3)]
  show ?case
  proof (cases "\<exists>c. p1 = QuadP c \<and> quad_size (b_quads st1 c) \<noteq> 0")
    case True
    then obtain c where c: "p1 = QuadP c" "quad_size (b_quads st1 c) \<noteq> 0" by blast
    have cc: "c < quad_count st1" using d_step_next [OF step Suc.prems(3,2)] c(1) by simp
    have "d_insert_star fuel ss i c st1 = Some (Inr (st', p))"
      using Suc.prems(1) step c by simp
    from Suc.IH [OF this ok1 cc]
    have "d_tree_ok st'" "quad_count st1 \<le> quad_count st'"
      "\<forall>a < quad_count st1. quad_size (b_quads st' a) = quad_size (b_quads st1 a)"
      by blast+
    then show ?thesis using sz by (metis le_trans less_le_trans)
  next
    case False
    then have "st' = st1" using Suc.prems(1) step by (cases p1) (auto split: if_splits)
    then show ?thesis using ok1 sz by simp
  qed
qed

lemma d_insert_stars_returns:
  assumes "d_tree_ok st" "\<bar>quad_size (b_quads st 0)\<bar> \<le> 2 powi (int k - 1074)" "k < fuel"
  shows "d_insert_stars fuel ss is st \<noteq> None"
  using assms
proof (induction "is" arbitrary: st)
  case Nil
  then show ?case by simp
next
  case (Cons i "is")
  have z: "0 < quad_count st" using Cons.prems(1) by (rule d_tree_okD(1))
  have "d_insert_star fuel ss i 0 st \<noteq> None"
    using Cons.prems(1) z Cons.prems(2,3) by (rule d_insert_star_returns)
  then obtain r where r: "d_insert_star fuel ss i 0 st = Some r" by blast
  show ?case
  proof (cases r)
    case (Inl e)
    then show ?thesis using r by simp
  next
    case (Inr sp)
    obtain st' p where sp: "sp = (st', p)" by (cases sp)
    have run: "d_insert_star fuel ss i 0 st = Some (Inr (st', p))" using r Inr sp by simp
    from d_insert_star_inv [OF run Cons.prems(1) z]
    have "d_tree_ok st'" "quad_size (b_quads st' 0) = quad_size (b_quads st 0)"
      using z by blast+
    then have "d_insert_stars fuel ss is st' \<noteq> None"
      using Cons.IH [of st'] Cons.prems(2,3) by simp
    then show ?thesis using run by simp
  qed
qed

lemma max_double_le: "max_double \<le> 2 powi (int 2098 - 1074)"
  by (simp add: max_double_def)

lemma d_init_root_ok:
  assumes "d_init_root ss (\<lambda>_. zero_quad) = Inr st"
  shows "d_tree_ok st" "finite_double (quad_size (b_quads st 0))" "quad_count st = 1"
  using assms
  by (auto simp: d_init_root_def Let_def d_tree_ok_def zero_quad_def split: if_splits)

lemma d_build_returns:
  assumes "2099 \<le> fuel"
  shows "d_build_tree fuel ss (\<lambda>_. zero_quad) \<noteq> None"
proof (cases "d_init_root ss (\<lambda>_. zero_quad)")
  case (Inl e)
  then show ?thesis by (simp add: d_build_tree_def)
next
  case (Inr st)
  have "\<bar>quad_size (b_quads st 0)\<bar> \<le> 2 powi (int 2098 - 1074)"
    using d_init_root_ok(2) [OF Inr] max_double_le by (simp add: finite_double_def)
  moreover have "2098 < fuel" using assms by simp
  ultimately have "d_insert_stars fuel ss [0 ..< length ss] st \<noteq> None"
    using d_init_root_ok(1) [OF Inr] by (intro d_insert_stars_returns)
  then show ?thesis using Inr by (simp add: d_build_tree_def)
qed

section \<open>The leaves of the tree built in doubles\<close>

text \<open>
  A pass keeps every leaf: a star leaves its slot only for the slot of the new quad that
  takes its place. A descent ends in the slot where it puts its star, or at a new quad of
  size zero.
\<close>

lemma is_leafI: "j < quad_count st \<Longrightarrow> s < 4 \<Longrightarrow> children (b_quads st j) s = StarP k \<Longrightarrow> is_leaf st k"
  unfolding is_leaf_def by blast

lemma d_step_leaf:
  assumes step: "d_insert_step ss i j st = Inr (st', p)" and j: "j < quad_count st"
    and ok: "d_tree_ok st"
  shows "is_leaf st k \<Longrightarrow> is_leaf st' k" and "p = StarP i \<Longrightarrow> is_leaf st' i"
proof -
  assume "is_leaf st k"
  then obtain a s where a: "a < quad_count st" "s < 4" "children (b_quads st a) s = StarP k"
    unfolding is_leaf_def by blast
  from step j show "is_leaf st' k"
  proof (cases rule: d_insert_step_cases)
    case (empty q kk)
    have "children (b_quads st' a) s = StarP k"
      using a(3) empty(3,4) d_add_star_fields(4) [OF empty(1)] by (cases "a = j") auto
    moreover have "a < quad_count st'" using a(1) empty(4) by simp
    ultimately show ?thesis using a(2) unfolding is_leaf_def by blast
  next
    case (descend q kk c)
    have "children (b_quads st' a) s = StarP k"
      using a(3) descend(6) d_add_star_fields(4) [OF descend(1)] by (cases "a = j") auto
    moreover have "a < quad_count st'" using a(1) descend(6) by simp
    ultimately show ?thesis using a(2) unfolding is_leaf_def by blast
  next
    case (split q kk c nq)
    let ?n = "quad_count st"
    have an: "a \<noteq> ?n" using a(1) by simp
    have cnt: "quad_count st' = ?n + 1" using split(8) by simp
    show ?thesis
    proof (cases "a = j \<and> s = kk")
      case True
      then have c: "c = StarP k" using a(3) split(3) by simp
      obtain k' where k': "k' < 4" "children nq = (children (b_quads st ?n))(k' := c)"
        using d_make_quad_fields(3) [OF split(7)] by blast
      have "children (b_quads st' ?n) k' = StarP k"
        using split(8) j k'(2) c by simp
      moreover have "?n < quad_count st'" using cnt by simp
      ultimately show ?thesis using k'(1) unfolding is_leaf_def by blast
    next
      case False
      have "children (b_quads st' a) s = StarP k"
        using a(3) split(8) d_add_star_fields(4) [OF split(1)] an False by (cases "a = j") auto
      moreover have "a < quad_count st'" using a(1) cnt by simp
      ultimately show ?thesis using a(2) unfolding is_leaf_def by blast
    qed
  qed
next
  assume p: "p = StarP i"
  from step j show "is_leaf st' i"
  proof (cases rule: d_insert_step_cases)
    case (empty q kk)
    have "children (b_quads st' j) kk = StarP i" using empty(4) by simp
    moreover have "j < quad_count st'" using j empty(4) by simp
    ultimately show ?thesis using empty(2) unfolding is_leaf_def by blast
  next
    case (descend q kk c)
    then show ?thesis using p by (cases c) simp_all
  next
    case (split q kk c nq)
    then show ?thesis using p by simp
  qed
qed

lemma d_insert_star_leaf:
  assumes "d_insert_star fuel ss i j st = Some (Inr (st', p))" "d_tree_ok st" "j < quad_count st"
  shows "(is_leaf st k \<longrightarrow> is_leaf st' k) \<and>
         (p = StarP i \<and> is_leaf st' i \<or>
          (\<exists>c. p = QuadP c \<and> 0 < c \<and> c < quad_count st' \<and> quad_size (b_quads st' c) = 0))"
  using assms
proof (induction fuel arbitrary: j st)
  case 0
  then show ?case by simp
next
  case (Suc fuel)
  obtain st1 p1 where step: "d_insert_step ss i j st = Inr (st1, p1)"
    using Suc.prems(1) by (cases "d_insert_step ss i j st") (auto split: prod.splits)
  have ok1: "d_tree_ok st1" using step Suc.prems(3,2) by (rule d_step_tree_ok)
  note lf = d_step_leaf [OF step Suc.prems(3,2)]
  note nx = d_step_next [OF step Suc.prems(3,2)]
  show ?case
  proof (cases "\<exists>c. p1 = QuadP c \<and> quad_size (b_quads st1 c) \<noteq> 0")
    case True
    then obtain c where c: "p1 = QuadP c" "quad_size (b_quads st1 c) \<noteq> 0" by blast
    have cc: "c < quad_count st1" using nx c(1) by simp
    have "d_insert_star fuel ss i c st1 = Some (Inr (st', p))"
      using Suc.prems(1) step c by simp
    from Suc.IH [OF this ok1 cc] show ?thesis using lf(1) [of k] by blast
  next
    case False
    then have e: "st' = st1" "p = p1" using Suc.prems(1) step by (cases p1; auto split: if_splits)+
    from nx show ?thesis
    proof
      assume "p1 = StarP i"
      then show ?thesis using lf e by blast
    next
      assume "\<exists>c. p1 = QuadP c \<and> 0 < c \<and> c < quad_count st1 \<and>
          quad_size (b_quads st1 c) = rd (quad_size (b_quads st j) / 2)"
      then obtain c where c: "p1 = QuadP c" "0 < c" "c < quad_count st1" by blast
      then have "quad_size (b_quads st1 c) = 0" using False by blast
      then show ?thesis using c e lf(1) [of k] by blast
    qed
  qed
qed

lemma d_insert_stars_inv:
  assumes "d_insert_stars fuel ss is st = Some (Inr b)" "d_tree_ok st"
  shows "d_tree_ok b \<and> quad_count st \<le> quad_count b \<and>
         (\<forall>a < quad_count st. quad_size (b_quads b a) = quad_size (b_quads st a))"
  using assms
proof (induction "is" arbitrary: st)
  case Nil
  then show ?case by simp
next
  case (Cons i "is")
  have z: "0 < quad_count st" using Cons.prems(2) by (rule d_tree_okD(1))
  obtain st' p where run: "d_insert_star fuel ss i 0 st = Some (Inr (st', p))"
    and rest: "d_insert_stars fuel ss is st' = Some (Inr b)"
    using Cons.prems(1) by (auto split: option.splits sum.splits prod.splits)
  from d_insert_star_inv [OF run Cons.prems(2) z]
  have a: "d_tree_ok st'" "quad_count st \<le> quad_count st'"
    "\<forall>a < quad_count st. quad_size (b_quads st' a) = quad_size (b_quads st a)"
    by blast+
  from Cons.IH [OF rest a(1)]
  have b: "d_tree_ok b" "quad_count st' \<le> quad_count b"
    "\<forall>a < quad_count st'. quad_size (b_quads b a) = quad_size (b_quads st' a)"
    by blast+
  show ?case using a b by (metis le_trans less_le_trans)
qed

lemma d_insert_stars_leaf:
  assumes "d_insert_stars fuel ss is st = Some (Inr b)" "d_tree_ok st" "no_underflow b"
  shows "(\<forall>k. is_leaf st k \<longrightarrow> is_leaf b k) \<and> (\<forall>i \<in> set is. is_leaf b i)"
  using assms(1,2)
proof (induction "is" arbitrary: st)
  case Nil
  then show ?case by simp
next
  case (Cons i "is")
  have z: "0 < quad_count st" using Cons.prems(2) by (rule d_tree_okD(1))
  obtain st' p where run: "d_insert_star fuel ss i 0 st = Some (Inr (st', p))"
    and rest: "d_insert_stars fuel ss is st' = Some (Inr b)"
    using Cons.prems(1) by (auto split: option.splits sum.splits prod.splits)
  have ok': "d_tree_ok st'" using d_insert_star_inv [OF run Cons.prems(2) z] by blast
  note inv = d_insert_stars_inv [OF rest ok']
  have ih: "\<forall>k. is_leaf st' k \<longrightarrow> is_leaf b k" "\<forall>i \<in> set is. is_leaf b i"
    using Cons.IH [OF rest ok'] by blast+
  have "is_leaf st' i"
  proof -
    from d_insert_star_leaf [OF run Cons.prems(2) z, of i]
    have "p = StarP i \<and> is_leaf st' i \<or>
          (\<exists>c. p = QuadP c \<and> 0 < c \<and> c < quad_count st' \<and> quad_size (b_quads st' c) = 0)"
      by blast
    then show ?thesis
    proof
      assume "p = StarP i \<and> is_leaf st' i"
      then show ?thesis by blast
    next
      assume "\<exists>c. p = QuadP c \<and> 0 < c \<and> c < quad_count st' \<and> quad_size (b_quads st' c) = 0"
      then obtain c where c: "0 < c" "c < quad_count st'" "quad_size (b_quads st' c) = 0" by blast
      then have "c < quad_count b" "quad_size (b_quads b c) = 0" using inv by auto
      then show ?thesis using assms(3) c(1) unfolding no_underflow_def by blast
    qed
  qed
  moreover have "is_leaf st k \<longrightarrow> is_leaf st' k" for k
    using d_insert_star_leaf [OF run Cons.prems(2) z, of k] by blast
  ultimately show ?case
    using ih by auto
qed

lemma d_build_leaves:
  assumes "d_build_tree fuel ss (\<lambda>_. zero_quad) = Some (Inr b)"
  shows "d_tree_ok b" "no_underflow b \<Longrightarrow> i < length ss \<Longrightarrow> is_leaf b i"
proof -
  obtain st where st: "d_init_root ss (\<lambda>_. zero_quad) = Inr st"
    and run: "d_insert_stars fuel ss [0 ..< length ss] st = Some (Inr b)"
    using assms by (auto simp: d_build_tree_def split: sum.splits)
  have ok: "d_tree_ok st" using st by (rule d_init_root_ok)
  show "d_tree_ok b" using d_insert_stars_inv [OF run ok] by blast
  show "is_leaf b i" if "no_underflow b" "i < length ss"
    using d_insert_stars_leaf [OF run ok that(1)] that(2) by simp
qed

section \<open>The mass of the root in doubles\<close>

text \<open>
  Every descent starts at the root and adds the mass of its star there; the later passes
  of the descent are at other quads. So the mass of the root is the sum of the star
  masses, added from the left in doubles.
\<close>

lemma d_step_mass:
  assumes step: "d_insert_step ss i j st = Inr (st', p)" and j: "j < quad_count st"
  shows "quad_mass (b_quads st' j) = rd (quad_mass (b_quads st j) + node_mass (ss ! i))"
    and "a < quad_count st \<Longrightarrow> a \<noteq> j \<Longrightarrow> quad_mass (b_quads st' a) = quad_mass (b_quads st a)"
proof -
  show "quad_mass (b_quads st' j) = rd (quad_mass (b_quads st j) + node_mass (ss ! i))"
    using step j
  proof (cases rule: d_insert_step_cases)
    case (empty q k)
    then show ?thesis using d_add_star_fields(5) [OF empty(1)] by simp
  next
    case (split q k c nq)
    then show ?thesis using d_add_star_fields(5) [OF split(1)] by simp
  next
    case (descend q k c)
    then show ?thesis using d_add_star_fields(5) [OF descend(1)] by simp
  qed
  assume a: "a < quad_count st" "a \<noteq> j"
  show "quad_mass (b_quads st' a) = quad_mass (b_quads st a)"
    using step j
  proof (cases rule: d_insert_step_cases)
    case (empty q k)
    then show ?thesis using a by simp
  next
    case (split q k c nq)
    then show ?thesis using a by simp
  next
    case (descend q k c)
    then show ?thesis using a by simp
  qed
qed

lemma d_insert_star_mass_other:
  assumes "d_insert_star fuel ss i j st = Some (Inr (st', p))" "d_tree_ok st" "j < quad_count st"
    and "0 < j"
  shows "quad_mass (b_quads st' 0) = quad_mass (b_quads st 0)"
  using assms
proof (induction fuel arbitrary: j st)
  case 0
  then show ?case by simp
next
  case (Suc fuel)
  obtain st1 p1 where step: "d_insert_step ss i j st = Inr (st1, p1)"
    using Suc.prems(1) by (cases "d_insert_step ss i j st") (auto split: prod.splits)
  have ok1: "d_tree_ok st1" using step Suc.prems(3,2) by (rule d_step_tree_ok)
  have m: "quad_mass (b_quads st1 0) = quad_mass (b_quads st 0)"
    using d_step_mass(2) [OF step Suc.prems(3), of 0] Suc.prems(3,4) by simp
  show ?case
  proof (cases "\<exists>c. p1 = QuadP c \<and> quad_size (b_quads st1 c) \<noteq> 0")
    case True
    then obtain c where c: "p1 = QuadP c" "quad_size (b_quads st1 c) \<noteq> 0" by blast
    have cc: "c < quad_count st1" "0 < c" using d_step_next [OF step Suc.prems(3,2)] c(1) by simp_all
    have "d_insert_star fuel ss i c st1 = Some (Inr (st', p))"
      using Suc.prems(1) step c by simp
    from Suc.IH [OF this ok1 cc] show ?thesis using m by simp
  next
    case False
    then have "st' = st1" using Suc.prems(1) step by (cases p1) (auto split: if_splits)
    then show ?thesis using m by simp
  qed
qed

lemma d_insert_star_root_mass:
  assumes "d_insert_star fuel ss i 0 st = Some (Inr (st', p))" "d_tree_ok st"
  shows "quad_mass (b_quads st' 0) = rd (quad_mass (b_quads st 0) + node_mass (ss ! i))"
proof -
  have z: "0 < quad_count st" using assms(2) by (rule d_tree_okD(1))
  obtain f where fuel: "fuel = Suc f" using assms(1) by (cases fuel) simp_all
  obtain st1 p1 where step: "d_insert_step ss i 0 st = Inr (st1, p1)"
    using assms(1) unfolding fuel by (cases "d_insert_step ss i 0 st") (auto split: prod.splits)
  have ok1: "d_tree_ok st1" using step z assms(2) by (rule d_step_tree_ok)
  have m: "quad_mass (b_quads st1 0) = rd (quad_mass (b_quads st 0) + node_mass (ss ! i))"
    using step z by (rule d_step_mass(1))
  show ?thesis
  proof (cases "\<exists>c. p1 = QuadP c \<and> quad_size (b_quads st1 c) \<noteq> 0")
    case True
    then obtain c where c: "p1 = QuadP c" "quad_size (b_quads st1 c) \<noteq> 0" by blast
    have cc: "c < quad_count st1" "0 < c" using d_step_next [OF step z assms(2)] c(1) by simp_all
    have "d_insert_star f ss i c st1 = Some (Inr (st', p))"
      using assms(1) step c unfolding fuel by simp
    from d_insert_star_mass_other [OF this ok1 cc] show ?thesis using m by simp
  next
    case False
    then have "st' = st1" using assms(1) step unfolding fuel by (cases p1) (auto split: if_splits)
    then show ?thesis using m by simp
  qed
qed

lemma d_insert_stars_root_mass:
  assumes "d_insert_stars fuel ss is st = Some (Inr b)" "d_tree_ok st"
  shows "quad_mass (b_quads b 0) =
         foldl (\<lambda>a i. rd (a + node_mass (ss ! i))) (quad_mass (b_quads st 0)) is"
  using assms
proof (induction "is" arbitrary: st)
  case Nil
  then show ?case by simp
next
  case (Cons i "is")
  have z: "0 < quad_count st" using Cons.prems(2) by (rule d_tree_okD(1))
  obtain st' p where run: "d_insert_star fuel ss i 0 st = Some (Inr (st', p))"
    and rest: "d_insert_stars fuel ss is st' = Some (Inr b)"
    using Cons.prems(1) by (auto split: option.splits sum.splits prod.splits)
  have ok': "d_tree_ok st'" using d_insert_star_inv [OF run Cons.prems(2) z] by blast
  show ?case
    using Cons.IH [OF rest ok'] d_insert_star_root_mass [OF run Cons.prems(2)] by simp
qed

lemma d_build_root_mass:
  assumes "d_build_tree fuel ss (\<lambda>_. zero_quad) = Some (Inr b)"
  shows "quad_mass (b_quads b 0) = fl_sum (map node_mass ss)"
proof -
  obtain st where st: "d_init_root ss (\<lambda>_. zero_quad) = Inr st"
    and run: "d_insert_stars fuel ss [0 ..< length ss] st = Some (Inr b)"
    using assms by (auto simp: d_build_tree_def split: sum.splits)
  have ok: "d_tree_ok st" using st by (rule d_init_root_ok)
  have m0: "quad_mass (b_quads st 0) = 0"
    using st by (auto simp: d_init_root_def Let_def zero_quad_def split: if_splits)
  have "fl_sum (map node_mass ss) = fl_sum (map (\<lambda>i. node_mass (ss ! i)) [0 ..< length ss])"
    by (simp only: map_index)
  also have "\<dots> = foldl (\<lambda>a i. rd (a + node_mass (ss ! i))) 0 [0 ..< length ss]"
    unfolding fl_sum_def by (simp add: foldl_map)
  finally show ?thesis
    using d_insert_stars_root_mass [OF run ok] m0 by simp
qed

lemma root_mass_tolerance:
  assumes "\<forall>s \<in> set ss. 0 < node_mass s \<and> is_double (node_mass s)" "length ss \<le> 2147483647"
    and "d_build_tree fuel ss (\<lambda>_. zero_quad) = Some (Inr b)"
  shows "\<bar>quad_mass (b_quads b 0) - sum_list (map node_mass ss)\<bar> \<le>
         real (length ss) * 2 powi (- 52) * sum_list (map node_mass ss)"
proof -
  have "\<forall>m \<in> set (map node_mass ss). 0 < m \<and> is_double m" using assms(1) by auto
  moreover have "length (map node_mass ss) \<le> 2147483647" using assms(2) by simp
  ultimately show ?thesis
    using fl_sum_tolerance [of "map node_mass ss"] d_build_root_mass [OF assms(3)] by simp
qed
section \<open>The capacity of the arena\<close>

lemma three_bounds:
  "xmin_world three_stars = 0" "xmax_world three_stars = 1"
  "ymin_world three_stars = 0" "ymax_world three_stars = 0"
  by (simp_all add: xmin_world_def xmax_world_def ymin_world_def ymax_world_def three_stars_def
      mk_star_def lower_bound_def upper_bound_def)

lemma three_nth:
  "three_stars ! 0 = mk_star 0 0 1" "three_stars ! Suc 0 = mk_star (1 / 64) 0 1"
  "three_stars ! Suc (Suc 0) = mk_star 1 0 1" "length three_stars = 3"
  by (simp_all add: three_stars_def)

lemma small_bits:
  "\<not> bit (0::nat) k" "bit (Suc 0) 0" "\<not> bit (Suc 0) (Suc 0)"
  "\<not> bit (Suc (Suc 0)) 0" "bit (Suc (Suc 0)) (Suc 0)"
  "bit (Suc (Suc (Suc 0))) 0" "bit (Suc (Suc (Suc 0))) (Suc 0)"
  by (simp_all add: bit_iff_odd)

lemma up3: "[0..<3] = [0, Suc 0, Suc (Suc 0)]"
  by (simp add: upt_rec)

text \<open>
  Claim C1, at the three stars \<open>(0, 0)\<close>, \<open>(1/64, 0)\<close> and \<open>(1, 0)\<close>: the arena has
  six quads, the build of the frame takes seven and returns. The seventh quad is
  \<^verbatim>\<open>quads[6]\<close>, behind the end of the arena; no test of \<^verbatim>\<open>quad_count\<close> against the
  capacity stops the build.
\<close>

theorem build_writes_past_arena:
  "quad_capacity three_stars = 6 \<and>
   map_option quad_count (build_tree 8 three_stars (\<lambda>_. zero_quad)) = Some 7"
  by (simp add: quad_capacity_def build_tree_def three_nth up3 small_bits init_root_def three_bounds
      zero_quad_def insert_step_def mk_star_def add_star_def gq set_child_def make_quad_def Let_def
      eval_nat_numeral)
section \<open>The build in doubles of the examples\<close>

text \<open>The roundings that occur in the builds of the examples.\<close>

lemma rd_values:
  "rd (1 / 9007199254740992) = 1 / 9007199254740992"
  "rd (3 / 64) = 3 / 64"
  "rd (- (3 / 64)) = - (3 / 64)"
  "rd (3 / 32) = 3 / 32"
  "rd (- (3 / 32)) = - (3 / 32)"
  "rd (3 / 16) = 3 / 16"
  "rd (- (3 / 16)) = - (3 / 16)"
  "rd (3 / 8) = 3 / 8"
  "rd (- (3 / 8)) = - (3 / 8)"
  "rd (1 / 2) = 1 / 2"
  "rd (3 / 4) = 3 / 4"
  "rd (- (3 / 4)) = - (3 / 4)"
  "rd (1) = 1"
  "rd (- 1) = - 1"
  "rd (9007199254740993 / 9007199254740992) = 1"
  "rd (4503599627370497 / 4503599627370496) = 4503599627370497 / 4503599627370496"
  "rd (67 / 64) = 67 / 64"
  "rd (35 / 32) = 35 / 32"
  "rd (19 / 16) = 19 / 16"
  "rd (11 / 8) = 11 / 8"
  "rd (3 / 2) = 3 / 2"
  "rd (7 / 4) = 7 / 4"
  "rd (2) = 2"
  "rd (9007199254740993 / 4503599627370496) = 2"
  "rd (5 / 2) = 5 / 2"
  "rd (3) = 3"
  "rd (4) = 4"
  "rd (5) = 5"
  apply (rule rdI [where k = "- 53" and n = 4503599627370496, THEN trans]; simp add: round_even_def power_int_minus_divide)
  apply (rule rdI [where k = "- 5" and n = 6755399441055744, THEN trans]; simp add: round_even_def power_int_minus_divide)
  apply (rule rdI [where k = "- 5" and n = "- 6755399441055744", THEN trans]; simp add: round_even_def power_int_minus_divide)
  apply (rule rdI [where k = "- 4" and n = 6755399441055744, THEN trans]; simp add: round_even_def power_int_minus_divide)
  apply (rule rdI [where k = "- 4" and n = "- 6755399441055744", THEN trans]; simp add: round_even_def power_int_minus_divide)
  apply (rule rdI [where k = "- 3" and n = 6755399441055744, THEN trans]; simp add: round_even_def power_int_minus_divide)
  apply (rule rdI [where k = "- 3" and n = "- 6755399441055744", THEN trans]; simp add: round_even_def power_int_minus_divide)
  apply (rule rdI [where k = "- 2" and n = 6755399441055744, THEN trans]; simp add: round_even_def power_int_minus_divide)
  apply (rule rdI [where k = "- 2" and n = "- 6755399441055744", THEN trans]; simp add: round_even_def power_int_minus_divide)
  apply (rule rdI [where k = "- 1" and n = 4503599627370496, THEN trans]; simp add: round_even_def power_int_minus_divide)
  apply (rule rdI [where k = "- 1" and n = 6755399441055744, THEN trans]; simp add: round_even_def power_int_minus_divide)
  apply (rule rdI [where k = "- 1" and n = "- 6755399441055744", THEN trans]; simp add: round_even_def power_int_minus_divide)
  apply (rule rdI [where k = 0 and n = 4503599627370496, THEN trans]; simp add: round_even_def power_int_minus_divide)
  apply (rule rdI [where k = 0 and n = "- 4503599627370496", THEN trans]; simp add: round_even_def power_int_minus_divide)
  apply (rule rdI [where k = 0 and n = 4503599627370496, THEN trans]; simp add: round_even_def power_int_minus_divide)
  apply (rule rdI [where k = 0 and n = 4503599627370497, THEN trans]; simp add: round_even_def power_int_minus_divide)
  apply (rule rdI [where k = 0 and n = 4714705859903488, THEN trans]; simp add: round_even_def power_int_minus_divide)
  apply (rule rdI [where k = 0 and n = 4925812092436480, THEN trans]; simp add: round_even_def power_int_minus_divide)
  apply (rule rdI [where k = 0 and n = 5348024557502464, THEN trans]; simp add: round_even_def power_int_minus_divide)
  apply (rule rdI [where k = 0 and n = 6192449487634432, THEN trans]; simp add: round_even_def power_int_minus_divide)
  apply (rule rdI [where k = 0 and n = 6755399441055744, THEN trans]; simp add: round_even_def power_int_minus_divide)
  apply (rule rdI [where k = 0 and n = 7881299347898368, THEN trans]; simp add: round_even_def power_int_minus_divide)
  apply (rule rdI [where k = 1 and n = 4503599627370496, THEN trans]; simp add: round_even_def power_int_minus_divide)
  apply (rule rdI [where k = 1 and n = 4503599627370496, THEN trans]; simp add: round_even_def power_int_minus_divide)
  apply (rule rdI [where k = 1 and n = 5629499534213120, THEN trans]; simp add: round_even_def power_int_minus_divide)
  apply (rule rdI [where k = 1 and n = 6755399441055744, THEN trans]; simp add: round_even_def power_int_minus_divide)
  apply (rule rdI [where k = 2 and n = 4503599627370496, THEN trans]; simp add: round_even_def power_int_minus_divide)
  apply (rule rdI [where k = 2 and n = 5629499534213120, THEN trans]; simp add: round_even_def power_int_minus_divide)
  done

lemma min_double_pos [simp]: "0 < min_double" "\<not> min_double < 0" "min_double \<noteq> 0" "\<not> min_double \<le> 0"
  by (simp_all add: min_double_def)

lemma rd_min_double:
  "rd min_double = min_double"
  "rd (2 * min_double) = 2 * min_double"
  "rd (3 * min_double) = 3 * min_double"
  "rd (3 * min_double / 2) = 2 * min_double"
  "rd (min_double / 2) = 0"
  "rd (min_double / 4) = 0"
  unfolding min_double_def
  apply (rule rdI [where k = "- 1074" and n = 1, THEN trans]; simp add: round_even_def power_int_minus_divide)
  apply (rule rdI [where k = "- 1073" and n = 2, THEN trans]; simp add: round_even_def power_int_minus_divide)
  apply (rule rdI [where k = "- 1073" and n = 3, THEN trans]; simp add: round_even_def power_int_minus_divide)
  apply (rule rdI [where k = "- 1074" and n = 2, THEN trans]; simp add: round_even_def power_int_minus_divide)
  apply (rule rdI [where k = "- 1075" and n = 0, THEN trans]; simp add: round_even_def power_int_minus_divide)
  apply (rule rdI [where k = "- 1076" and n = 0, THEN trans]; simp add: round_even_def power_int_minus_divide)
  done

lemma finite_min_double:
  "finite_double min_double" "finite_double (2 * min_double)" "finite_double (3 * min_double)"
  by (simp_all add: finite_double_def max_double_def min_double_def power_int_minus_divide)

lemma finite_small: "finite_double 0" "finite_double 1" "finite_double 2"
  by (simp_all add: finite_double_def max_double_def)

lemma tiny_bounds:
  "xmin_world tiny_stars = min_double" "xmax_world tiny_stars = 2 * min_double"
  "ymin_world tiny_stars = 0" "ymax_world tiny_stars = 0"
  by (simp_all add: xmin_world_def xmax_world_def ymin_world_def ymax_world_def tiny_stars_def
      mk_star_def lower_bound_def upper_bound_def)

lemma tiny_nth:
  "tiny_stars ! 0 = mk_star min_double 0 1"
  "tiny_stars ! Suc 0 = mk_star (2 * min_double) 0 1" "length tiny_stars = 2" "tiny_stars \<noteq> []"
  by (simp_all add: tiny_stars_def)


lemma finite_double_small: "\<bar>x\<bar> \<le> 8 \<Longrightarrow> finite_double x"
  by (simp add: finite_double_def max_double_def)

lemma close_bounds:
  "xmin_world close_stars = 1" "xmax_world close_stars = 4"
  "ymin_world close_stars = 0" "ymax_world close_stars = 0"
  by (simp_all add: xmin_world_def xmax_world_def ymin_world_def ymax_world_def close_stars_def
      mk_star_def lower_bound_def upper_bound_def)

lemma close_nth:
  "close_stars ! 0 = mk_star 1 0 1"
  "close_stars ! Suc 0 = mk_star (4503599627370497 / 4503599627370496) 0 1"
  "close_stars ! Suc (Suc 0) = mk_star 4 0 1" "length close_stars = 3" "close_stars \<noteq> []"
  by (simp_all add: close_stars_def)


lemma mixed_bounds:
  "xmin_world mixed_stars = - 1" "xmax_world mixed_stars = 1"
  "ymin_world mixed_stars = 0" "ymax_world mixed_stars = 2"
  by (simp_all add: xmin_world_def xmax_world_def ymin_world_def ymax_world_def mixed_stars_def
      mk_star_def lower_bound_def upper_bound_def)

lemma mixed_nth:
  "mixed_stars ! 0 = mk_star 1 0 1"
  "mixed_stars ! Suc 0 = mk_star (1 / 9007199254740992) 1 1"
  "mixed_stars ! Suc (Suc 0) = mk_star (- 1) 2 1" "length mixed_stars = 3" "mixed_stars \<noteq> []"
  by (simp_all add: mixed_stars_def)

lemma mixed_build:
  "d_build_tree (Suc (Suc fuel)) mixed_stars (\<lambda>_. zero_quad) =
     Some (Inr \<lparr>b_quads = mixed_tree, quad_count = 2\<rparr>)"
  apply (simp add: mixed_tree_def quad_capacity_def d_build_tree_def mixed_nth up3 small_bits d_init_root_def mixed_bounds
      zero_quad_def d_insert_step_def mk_star_def d_add_star_def gq set_child_def d_make_quad_def Let_def
      rd_values finite_double_small eval_nat_numeral)
  apply (rule fun_upd_twist)
  apply simp
  done

lemma close_build:
  "d_build_tree (Suc (Suc (Suc (Suc (Suc (Suc fuel)))))) close_stars (\<lambda>_. zero_quad) =
     Some (Inl Arena_Overrun)"
  by (simp add: quad_capacity_def d_build_tree_def close_nth up3 small_bits d_init_root_def close_bounds
      zero_quad_def d_insert_step_def mk_star_def d_add_star_def gq set_child_def d_make_quad_def Let_def
      rd_values finite_double_small eval_nat_numeral)

lemma tiny_build:
  "d_build_tree (Suc fuel) tiny_stars (\<lambda>_. zero_quad) = Some (Inr \<lparr>b_quads = tiny_tree, quad_count = 2\<rparr>)"
  apply (simp add: tiny_tree_def quad_capacity_def d_build_tree_def tiny_nth up2 small_bits d_init_root_def tiny_bounds
      zero_quad_def d_insert_step_def mk_star_def d_add_star_def gq set_child_def d_make_quad_def Let_def
      rd_min_double rd_values finite_min_double finite_double_small eval_nat_numeral)
  apply (rule fun_upd_twist)
  apply simp
  done

lemma two_stars_nonempty: "two_stars \<noteq> []"
  by (simp add: two_stars_def)

lemma d_build2:
  "d_build_tree (Suc fuel) two_stars (\<lambda>_. zero_quad) = Some (Inr \<lparr>b_quads = two_star_tree, quad_count = 1\<rparr>)"
  by (simp add: two_star_tree_def quad_capacity_def d_build_tree_def nth2 up2 small_bits d_init_root_def bounds2
      zero_quad_def d_insert_step_def d_add_star_def gq set_child_def d_make_quad_def Let_def
      rd_values finite_double_small eval_nat_numeral two_stars_nonempty)
section \<open>Mass and centre of mass of the quads\<close>

text \<open>
  In exact arithmetic, after a build from the zeroed arena (a frame leaves it zeroed, by
  \<open>frame_resets_arena\<close>) and with all star masses positive: the mass of every quad in
  use is the sum of the masses of the stars inserted below it, and its position is the
  mean of their positions weighted by mass. Unless all stars lie at one point (then the
  root has size 0), the stars inserted below a quad are those of its four child slots: a
  leaf stands for its star, a child quad for the stars inserted below it. All stars are
  inserted below the root.
\<close>

lemma centre_of_mass_exact:
  assumes pos: "\<forall>s\<in>set ss. 0 < node_mass s"
    and build: "build_tree fuel ss (\<lambda>_. zero_quad) = Some b"
    and j: "j < quad_count b"
  shows "quad_mass (b_quads b j) = (\<Sum>k\<leftarrow>tree_members fuel ss (\<lambda>_. zero_quad) j. node_mass (ss ! k)) \<and>
         quad_x (b_quads b j) =
           (\<Sum>k\<leftarrow>tree_members fuel ss (\<lambda>_. zero_quad) j. node_mass (ss ! k) * node_x (ss ! k)) /
           (\<Sum>k\<leftarrow>tree_members fuel ss (\<lambda>_. zero_quad) j. node_mass (ss ! k)) \<and>
         quad_y (b_quads b j) =
           (\<Sum>k\<leftarrow>tree_members fuel ss (\<lambda>_. zero_quad) j. node_mass (ss ! k) * node_y (ss ! k)) /
           (\<Sum>k\<leftarrow>tree_members fuel ss (\<lambda>_. zero_quad) j. node_mass (ss ! k)) \<and>
         (quad_size (b_quads (init_root ss (\<lambda>_. zero_quad)) 0) \<noteq> 0 \<longrightarrow>
            mset (tree_members fuel ss (\<lambda>_. zero_quad) j) =
            (\<Sum>s<4. mset (ptr_members (tree_members fuel ss (\<lambda>_. zero_quad)) (children (b_quads b j) s)))) \<and>
         tree_members fuel ss (\<lambda>_. zero_quad) 0 = rev [0 ..< length ss] \<and>
         quad_mass (b_quads b 0) = sum_list (map node_mass ss) \<and>
         quad_x (b_quads b 0) = sum_list (map (\<lambda>s. node_mass s * node_x s) ss) / sum_list (map node_mass ss) \<and>
         quad_y (b_quads b 0) = sum_list (map (\<lambda>s. node_mass s * node_y s) ss) / sum_list (map node_mass ss)"
proof -
  let ?m = "tree_members fuel ss (\<lambda>_. zero_quad)"
  have run: "insert_stars fuel ss [0 ..< length ss] (init_root ss (\<lambda>_. zero_quad)) = Some b"
    using build by (simp add: build_tree_def)
  have idx: "\<forall>i\<in>set [0 ..< length ss]. i < length ss" by simp
  from insert_stars_sums_ok [OF pos idx init_root_tree_ok init_root_sums_ok run]
  have so: "sums_ok ss b ?m" and root: "?m 0 = rev [0 ..< length ss]"
    by (simp_all add: tree_members_def)
  have z: "0 < quad_count b" using build_tree_ok [OF build] by (rule tree_okD(1))
  have nj: "node_ok ss (b_quads b j) (?m j)" using so j by (rule sums_okD)
  have n0: "node_ok ss (b_quads b 0) (rev [0 ..< length ss])"
    using sums_okD [OF so z] by (simp add: root)
  have m0: "quad_mass (b_quads b 0) = sum_list (map node_mass ss)"
    using n0 sum_list_rev_upt [of node_mass ss] by (simp add: node_ok_def del: rev_rev_ident)
  have x0: "quad_x (b_quads b 0) = sum_list (map (\<lambda>s. node_mass s * node_x s) ss) / sum_list (map node_mass ss)"
    using node_ok_mean(1) [OF pos n0] sum_list_rev_upt [of node_mass ss]
      sum_list_rev_upt [of "\<lambda>s. node_mass s * node_x s" ss] by simp
  have y0: "quad_y (b_quads b 0) = sum_list (map (\<lambda>s. node_mass s * node_y s) ss) / sum_list (map node_mass ss)"
    using node_ok_mean(2) [OF pos n0] sum_list_rev_upt [of node_mass ss]
      sum_list_rev_upt [of "\<lambda>s. node_mass s * node_y s" ss] by simp
  have mj: "quad_mass (b_quads b j) = (\<Sum>k\<leftarrow>?m j. node_mass (ss ! k))"
    using nj by (simp add: node_ok_def)
  have sp: "mset (?m j) = (\<Sum>s<4. mset (ptr_members ?m (children (b_quads b j) s)))"
    if "quad_size (b_quads (init_root ss (\<lambda>_. zero_quad)) 0) \<noteq> 0"
    using that build j by (rule members_split)
  show ?thesis
    using mj node_ok_mean [OF pos nj] root m0 x0 y0 sp by blast
qed

text \<open>
  Claim C4, as the specification states it for floating point: the position of a quad is
  within the relative tolerance \<open>N\<close> times the machine epsilon of the mean of the
  positions weighted by mass. The three stars of mass 1 at \<open>(1, 0)\<close>, \<open>(2 ^ -53, 1)\<close>
  and \<open>(-1, 2)\<close> are doubles. Their mean x is \<open>2 ^ -53 / 3\<close>. The build in doubles
  returns with the root at \<open>x = 0\<close>: the sum \<open>1 + 2 ^ -53\<close> of line 241 rounds to 1,
  and the third star cancels it. The error is as large as the mean itself.
\<close>

theorem centre_of_mass_rounding_counterexample:
  "list_all is_double (map node_x mixed_stars @ map node_y mixed_stars @ map node_mass mixed_stars) \<and>
   map node_mass mixed_stars = [1, 1, 1] \<and>
   d_build_tree 2 mixed_stars (\<lambda>_. zero_quad) = Some (Inr \<lparr>b_quads = mixed_tree, quad_count = 2\<rparr>) \<and>
   quad_x (mixed_tree 0) = 0 \<and>
   mean_x mixed_stars = 1 / (3 * 2 ^ 53) \<and>
   real (length mixed_stars) * machine_epsilon * \<bar>mean_x mixed_stars\<bar> <
     \<bar>quad_x (mixed_tree 0) - mean_x mixed_stars\<bar>"
proof -
  have b: "d_build_tree 2 mixed_stars (\<lambda>_. zero_quad) = Some (Inr \<lparr>b_quads = mixed_tree, quad_count = 2\<rparr>)"
    using mixed_build [of 0] by (simp add: eval_nat_numeral)
  have m: "mean_x mixed_stars = 1 / (3 * 2 ^ 53)"
    by (simp add: mean_x_def mixed_stars_def mk_star_def)
  have x: "quad_x (mixed_tree 0) = 0" by (simp add: mixed_tree_def)
  have d: "list_all is_double (map node_x mixed_stars @ map node_y mixed_stars @ map node_mass mixed_stars)"
    by (simp add: mixed_stars_def mk_star_def is_double_def rd_values)
  have e: "real (length mixed_stars) * machine_epsilon * \<bar>mean_x mixed_stars\<bar> <
     \<bar>quad_x (mixed_tree 0) - mean_x mixed_stars\<bar>"
    unfolding m x by (simp add: machine_epsilon_def mixed_stars_def power_int_minus_divide)
  show ?thesis using b m x d e by (simp add: mixed_stars_def mk_star_def)
qed

text \<open>
  Claim C4, amended: after the build of a frame, with all star masses positive, for every
  quad of the tree its mass is the sum of the masses of all stars inserted below it and
  its position is the mean of their positions weighted by mass, exactly, when the
  arithmetic is exact. In floating point, with masses that are doubles and a star count
  that fits a C \<^verbatim>\<open>int\<close>, the mass of the root is within the relative tolerance \<open>N\<close>
  times the machine epsilon of the sum of all star masses, in every build that returns;
  no relative tolerance is stated for the positions.
\<close>

theorem centre_of_mass:
  assumes pos: "\<forall>s\<in>set ss. 0 < node_mass s"
  shows "(build_tree fuel ss (\<lambda>_. zero_quad) = Some b \<and> j < quad_count b \<longrightarrow>
         quad_mass (b_quads b j) = (\<Sum>k\<leftarrow>tree_members fuel ss (\<lambda>_. zero_quad) j. node_mass (ss ! k)) \<and>
          quad_x (b_quads b j) =
            (\<Sum>k\<leftarrow>tree_members fuel ss (\<lambda>_. zero_quad) j. node_mass (ss ! k) * node_x (ss ! k)) /
            (\<Sum>k\<leftarrow>tree_members fuel ss (\<lambda>_. zero_quad) j. node_mass (ss ! k)) \<and>
          quad_y (b_quads b j) =
            (\<Sum>k\<leftarrow>tree_members fuel ss (\<lambda>_. zero_quad) j. node_mass (ss ! k) * node_y (ss ! k)) /
            (\<Sum>k\<leftarrow>tree_members fuel ss (\<lambda>_. zero_quad) j. node_mass (ss ! k)) \<and>
          (quad_size (b_quads (init_root ss (\<lambda>_. zero_quad)) 0) \<noteq> 0 \<longrightarrow>
             mset (tree_members fuel ss (\<lambda>_. zero_quad) j) =
             (\<Sum>s<4. mset (ptr_members (tree_members fuel ss (\<lambda>_. zero_quad)) (children (b_quads b j) s)))) \<and>
          tree_members fuel ss (\<lambda>_. zero_quad) 0 = rev [0 ..< length ss] \<and>
          quad_mass (b_quads b 0) = sum_list (map node_mass ss) \<and>
          quad_x (b_quads b 0) = sum_list (map (\<lambda>s. node_mass s * node_x s) ss) / sum_list (map node_mass ss) \<and>
          quad_y (b_quads b 0) = sum_list (map (\<lambda>s. node_mass s * node_y s) ss) / sum_list (map node_mass ss)) \<and>
         ((\<forall>s\<in>set ss. is_double (node_mass s)) \<and> length ss \<le> 2147483647 \<and>
          d_build_tree dfuel ss (\<lambda>_. zero_quad) = Some (Inr db) \<longrightarrow>
            \<bar>quad_mass (b_quads db 0) - sum_list (map node_mass ss)\<bar> \<le>
              real (length ss) * machine_epsilon * sum_list (map node_mass ss))"
proof -
  have "\<bar>quad_mass (b_quads db 0) - sum_list (map node_mass ss)\<bar> \<le>
              real (length ss) * machine_epsilon * sum_list (map node_mass ss)"
    if "(\<forall>s\<in>set ss. is_double (node_mass s)) \<and> length ss \<le> 2147483647 \<and>
          d_build_tree dfuel ss (\<lambda>_. zero_quad) = Some (Inr db)"
  proof -
    have "\<forall>s \<in> set ss. 0 < node_mass s \<and> is_double (node_mass s)" using pos that by blast
    then show ?thesis
      unfolding machine_epsilon_def using that by (intro root_mass_tolerance) blast+
  qed
  then show ?thesis using centre_of_mass_exact [OF pos, of fuel b j] by blast
qed

text \<open>
  Claim C4 at the two stars of mass 1 and 3: in exact arithmetic and in doubles the root
  has mass 4 and lies at \<open>(3/4, 0)\<close>.
\<close>

theorem centre_of_mass_witness:
  "map node_mass two_stars = [1, 3] \<and>
   build_tree 2 two_stars (\<lambda>_. zero_quad) = Some \<lparr>b_quads = two_star_tree, quad_count = 1\<rparr> \<and>
   quad_size (b_quads (init_root two_stars (\<lambda>_. zero_quad)) 0) \<noteq> 0 \<and>
   quad_mass (two_star_tree 0) = 4 \<and> quad_x (two_star_tree 0) = 3 / 4 \<and>
   quad_y (two_star_tree 0) = 0 \<and> tree_members 2 two_stars (\<lambda>_. zero_quad) 0 = [1, 0] \<and>
   mset (tree_members 2 two_stars (\<lambda>_. zero_quad) 0) =
     (\<Sum>s<4. mset (ptr_members (tree_members 2 two_stars (\<lambda>_. zero_quad)) (children (two_star_tree 0) s))) \<and>
   list_all is_double (map node_mass two_stars) \<and> length two_stars \<le> 2147483647 \<and>
   d_build_tree 2 two_stars (\<lambda>_. zero_quad) = Some (Inr \<lparr>b_quads = two_star_tree, quad_count = 1\<rparr>) \<and>
   \<bar>quad_mass (two_star_tree 0) - sum_list (map node_mass two_stars)\<bar> \<le>
     real (length two_stars) * machine_epsilon * sum_list (map node_mass two_stars)"
proof -
  have pos: "\<forall>s\<in>set two_stars. 0 < node_mass s" by (simp add: two_stars_def)
  have j: "0 < quad_count \<lparr>b_quads = two_star_tree, quad_count = 1\<rparr>" by simp
  have r: "quad_size (b_quads (init_root two_stars (\<lambda>_. zero_quad)) 0) \<noteq> 0"
    by (simp add: init_root_def bounds2)
  have dbl: "\<forall>s\<in>set two_stars. is_double (node_mass s)"
    by (simp add: two_stars_def is_double_def rd_values)
  have len: "length two_stars \<le> 2147483647" by (simp add: nth2(3))
  have db: "d_build_tree 2 two_stars (\<lambda>_. zero_quad) = Some (Inr \<lparr>b_quads = two_star_tree, quad_count = 1\<rparr>)"
    using d_build2 [of 1] by (simp add: eval_nat_numeral)
  note com = centre_of_mass [OF pos, of 2 "\<lparr>b_quads = two_star_tree, quad_count = 1\<rparr>" 0 2
      "\<lparr>b_quads = two_star_tree, quad_count = 1\<rparr>", unfolded bstate.select_convs]
  have "quad_mass (two_star_tree 0) = sum_list (map node_mass two_stars)"
    and "quad_x (two_star_tree 0) = sum_list (map (\<lambda>s. node_mass s * node_x s) two_stars) / sum_list (map node_mass two_stars)"
    and "quad_y (two_star_tree 0) = sum_list (map (\<lambda>s. node_mass s * node_y s) two_stars) / sum_list (map node_mass two_stars)"
    and "tree_members 2 two_stars (\<lambda>_. zero_quad) 0 = rev [0 ..< length two_stars]"
    and "mset (tree_members 2 two_stars (\<lambda>_. zero_quad) 0) =
     (\<Sum>s<4. mset (ptr_members (tree_members 2 two_stars (\<lambda>_. zero_quad)) (children (two_star_tree 0) s)))"
    using com build2 j r by blast+
  moreover have "\<bar>quad_mass (two_star_tree 0) - sum_list (map node_mass two_stars)\<bar> \<le>
     real (length two_stars) * machine_epsilon * sum_list (map node_mass two_stars)"
    using com dbl len db by blast
  moreover have "list_all is_double (map node_mass two_stars)"
    using dbl by (simp add: list_all_iff)
  ultimately show ?thesis using r len db build2 by (simp add: two_stars_def)
qed

section \<open>The force kernel is total\<close>

text \<open>
  Claim C5: with a positive \<open>\<epsilon>\<close> the denominator \<open>r2 + \<epsilon>\<close> of the accepted branch is
  positive for every offset, so the kernel never divides by zero. The walk from the root
  of a tree that the build made returns: as many nested calls as there are quads, and
  one more, are enough. A node at the position of the target star with size 0 adds
  nothing to the accumulator.
\<close>

theorem force_kernel_total:
  assumes eps: "0 < epsilon cfg" and build: "build_tree fuel ss (\<lambda>_. zero_quad) = Some b"
  shows "0 < accel_denominator cfg (dx * dx + dy * dy) \<and>
         (\<exists>a. get_accel (Suc (quad_count b)) cfg ss (b_quads b) k (QuadP 0) accel = Some a) \<and>
         (ptr_x ss qs p = node_x (ss ! i) \<and> ptr_y ss qs p = node_y (ss ! i) \<and> ptr_size qs p = 0 \<longrightarrow>
            get_accel (Suc n) cfg ss qs i p accel = Some accel)"
proof -
  have "0 \<le> dx * dx + dy * dy" by simp
  then have "0 < accel_denominator cfg (dx * dx + dy * dy)"
    using eps unfolding accel_denominator_def by linarith
  moreover have "\<exists>a. get_accel (Suc (quad_count b)) cfg ss (b_quads b) k (QuadP 0) accel = Some a"
    using build by (rule get_accel_total)
  moreover have "get_accel (Suc n) cfg ss qs i p accel = Some accel"
    if "ptr_x ss qs p = node_x (ss ! i) \<and> ptr_y ss qs p = node_y (ss ! i) \<and> ptr_size qs p = 0"
    using that by (simp add: Let_def)
  ultimately show ?thesis by blast
qed

text \<open>
  Claim C5 at the two-star tree: the walk for the first star returns, and the leaf of the
  first star itself adds nothing.
\<close>

theorem force_kernel_total_witness:
  "0 < accel_denominator example_config (0 * 0 + 0 * 0) \<and>
   (\<exists>a. get_accel 2 example_config two_stars two_star_tree 0 (QuadP 0) \<lparr>vx = 0, vy = 0\<rparr> = Some a) \<and>
   ptr_x two_stars two_star_tree (StarP 0) = node_x (two_stars ! 0) \<and>
   ptr_y two_stars two_star_tree (StarP 0) = node_y (two_stars ! 0) \<and>
   ptr_size two_star_tree (StarP 0) = 0 \<and>
   get_accel 1 example_config two_stars two_star_tree 0 (StarP 0) \<lparr>vx = 0, vy = 0\<rparr> =
     Some \<lparr>vx = 0, vy = 0\<rparr>"
proof -
  have eps: "0 < epsilon example_config" by (simp add: example_config_def)
  have same: "ptr_x two_stars two_star_tree (StarP 0) = node_x (two_stars ! 0) \<and>
      ptr_y two_stars two_star_tree (StarP 0) = node_y (two_stars ! 0) \<and>
      ptr_size two_star_tree (StarP 0) = 0" by simp
  have two: "Suc (quad_count \<lparr>b_quads = two_star_tree, quad_count = 1\<rparr>) = 2" by simp
  from force_kernel_total [OF eps build2, of 0 0 0 "\<lparr>vx = 0, vy = 0\<rparr>" two_star_tree "StarP 0" 0 0]
  show ?thesis using same unfolding two by simp
qed

section \<open>The insertion loop terminates\<close>

text \<open>
  Claim C9, as the specification states it: with no two stars at the same coordinates, a
  descent stops at an empty or newly split child slot, and the halving of the sizes
  separates two distinct positions. Both inputs below have stars at distinct positions.

  The doubles 1 and \<open>1 + 2 ^ -52\<close> lie in the same quadrant of every quad that the
  descent of the second star makes: the descent takes all six quads of the arena of three
  stars and then needs a seventh, where the C code writes behind the end of the arena.

  The two smallest positive doubles lie in the same quadrant of the root, whose centre
  \<open>1.5 * 2 ^ -1074\<close> rounds to \<open>2 ^ -1073\<close>. The quad that takes the place of the
  first star has half the size of the root, which rounds to zero, so the loop of the
  second star ends there: the build returns with the first star as a leaf and the second
  star in no slot of the tree.
\<close>

theorem insertion_counterexample:
  "distinct (positions close_stars) \<and>
   d_build_tree 2099 close_stars (\<lambda>_. zero_quad) = Some (Inl Arena_Overrun) \<and>
   distinct (positions tiny_stars) \<and>
   d_build_tree 2099 tiny_stars (\<lambda>_. zero_quad) =
     Some (Inr \<lparr>b_quads = tiny_tree, quad_count = 2\<rparr>) \<and>
   is_leaf \<lparr>b_quads = tiny_tree, quad_count = 2\<rparr> 0 \<and>
   \<not> is_leaf \<lparr>b_quads = tiny_tree, quad_count = 2\<rparr> 1"
proof -
  have a: "distinct (positions close_stars)"
    by (simp add: positions_def close_stars_def mk_star_def)
  have b: "d_build_tree 2099 close_stars (\<lambda>_. zero_quad) = Some (Inl Arena_Overrun)"
    using close_build [of 2093] by simp
  have c: "distinct (positions tiny_stars)"
    by (simp add: positions_def tiny_stars_def mk_star_def)
  have d: "d_build_tree 2099 tiny_stars (\<lambda>_. zero_quad) =
     Some (Inr \<lparr>b_quads = tiny_tree, quad_count = 2\<rparr>)"
    using tiny_build [of 2098] by simp
  have e: "is_leaf \<lparr>b_quads = tiny_tree, quad_count = 2\<rparr> 0"
    unfolding is_leaf_def by (intro exI [of _ 1] exI [of _ 0] conjI) (simp_all add: tiny_tree_def)
  have f: "\<not> is_leaf \<lparr>b_quads = tiny_tree, quad_count = 2\<rparr> 1"
    by (auto simp: is_leaf_def tiny_tree_def less_Suc_eq eval_nat_numeral zero_quad_def)
  show ?thesis using a b c d e f by blast
qed

text \<open>
  Claim C9, amended: for every frame, whether or not stars share coordinates, the
  per-star insertion loop of the tree builder terminates, after at most 2099 passes for
  each star, unless it needs more quads than the arena holds or a value is not finite: the
  size of a child quad is the half of the size of its parent, rounded to a double, so the
  sizes decrease until they underflow to zero. When no quad other than the root has the
  size zero, every descent has stopped at an empty child slot and every star is a leaf of
  the tree, in a slot of its own.
\<close>

theorem insertion_terminates:
  assumes "2099 \<le> fuel"
  shows "(\<exists>r. d_build_tree fuel ss (\<lambda>_. zero_quad) = Some r) \<and>
         (d_build_tree fuel ss (\<lambda>_. zero_quad) = Some (Inr b) \<longrightarrow>
            (\<forall>j s c. j < quad_count b \<and> children (b_quads b j) s = QuadP c \<longrightarrow>
               quad_size (b_quads b c) = rd (quad_size (b_quads b j) / 2)) \<and>
            (no_underflow b \<longrightarrow> (\<forall>i < length ss. is_leaf b i)))"
proof -
  have "\<exists>r. d_build_tree fuel ss (\<lambda>_. zero_quad) = Some r"
    using d_build_returns [OF assms, of ss] by blast
  moreover have "(\<forall>j s c. j < quad_count b \<and> children (b_quads b j) s = QuadP c \<longrightarrow>
               quad_size (b_quads b c) = rd (quad_size (b_quads b j) / 2)) \<and>
            (no_underflow b \<longrightarrow> (\<forall>i < length ss. is_leaf b i))"
    if run: "d_build_tree fuel ss (\<lambda>_. zero_quad) = Some (Inr b)"
  proof -
    note l = d_build_leaves [OF run]
    show ?thesis using d_tree_okD(3) [OF l(1)] l(2) by blast
  qed
  ultimately show ?thesis by blast
qed

text \<open>
  Claim C9, amended, at the three stars \<open>(1, 0)\<close>, \<open>(2 ^ -53, 1)\<close> and \<open>(-1, 2)\<close>:
  the build returns with two quads, the second of half the size of the root, and with the
  three stars as leaves.
\<close>

theorem insertion_terminates_witness:
  "(2099::nat) \<le> 2099 \<and>
   d_build_tree 2099 mixed_stars (\<lambda>_. zero_quad) = Some (Inr \<lparr>b_quads = mixed_tree, quad_count = 2\<rparr>) \<and>
   children (mixed_tree 0) 1 = QuadP 1 \<and>
   quad_size (mixed_tree 1) = rd (quad_size (mixed_tree 0) / 2) \<and>
   no_underflow \<lparr>b_quads = mixed_tree, quad_count = 2\<rparr> \<and>
   is_leaf \<lparr>b_quads = mixed_tree, quad_count = 2\<rparr> 0 \<and>
   is_leaf \<lparr>b_quads = mixed_tree, quad_count = 2\<rparr> 1 \<and>
   is_leaf \<lparr>b_quads = mixed_tree, quad_count = 2\<rparr> 2"
proof -
  have f: "(2099::nat) \<le> 2099" by simp
  have b: "d_build_tree 2099 mixed_stars (\<lambda>_. zero_quad) = Some (Inr \<lparr>b_quads = mixed_tree, quad_count = 2\<rparr>)"
    using mixed_build [of 2097] by simp
  have c: "children (mixed_tree 0) 1 = QuadP 1" by (simp add: mixed_tree_def)
  have n: "no_underflow \<lparr>b_quads = mixed_tree, quad_count = 2\<rparr>"
    by (auto simp: no_underflow_def mixed_tree_def less_Suc_eq eval_nat_numeral)
  note t = insertion_terminates [OF f, of mixed_stars "\<lparr>b_quads = mixed_tree, quad_count = 2\<rparr>",
      unfolded b bstate.select_convs]
  from t have t1: "\<And>j s c. j < 2 \<Longrightarrow> children (mixed_tree j) s = QuadP c \<Longrightarrow>
         quad_size (mixed_tree c) = rd (quad_size (mixed_tree j) / 2)"
    and t2: "no_underflow \<lparr>b_quads = mixed_tree, quad_count = 2\<rparr> \<Longrightarrow>
         \<forall>i < length mixed_stars. is_leaf \<lparr>b_quads = mixed_tree, quad_count = 2\<rparr> i"
    by simp_all
  have s: "quad_size (mixed_tree 1) = rd (quad_size (mixed_tree 0) / 2)"
    using t1 [of 0 1 1] c by simp
  have l: "\<forall>i < length mixed_stars. is_leaf \<lparr>b_quads = mixed_tree, quad_count = 2\<rparr> i"
    using t2 n by blast
  have "is_leaf \<lparr>b_quads = mixed_tree, quad_count = 2\<rparr> 0"
    "is_leaf \<lparr>b_quads = mixed_tree, quad_count = 2\<rparr> 1"
    "is_leaf \<lparr>b_quads = mixed_tree, quad_count = 2\<rparr> 2"
    using l by (simp_all add: mixed_nth(4))
  then show ?thesis using f b c n s by blast
qed

end
